theory Spec2Isabelle
  imports Main
begin

section \<open>The task core of \<^verbatim>\<open>task.h\<close> (namespace \<^verbatim>\<open>xrt::task\<close>)\<close>

text \<open>
  The header defines a type-erased \<^verbatim>\<open>task\<close> around a \<^verbatim>\<open>std::packaged_task\<close>, a
  \<^verbatim>\<open>queue\<close> of tasks guarded by one mutex, an \<^verbatim>\<open>event\<close> around a \<^verbatim>\<open>std::future\<close>,
  the submission helpers \<^verbatim>\<open>createF\<close> and \<^verbatim>\<open>createM\<close>, and the \<^verbatim>\<open>worker\<close> loop.

  The embedding passes state explicitly. A packaged task and its future share one
  result slot; the slots live in a heap (a list, a slot's address is its index), so
  that the aliasing between the task side and the event side is visible. Callables
  are arbitrary C++ code: a callable is a function of the state of the rest of the
  program (the ``world'') that returns that state updated, together with either the
  value it returns or the exception it throws. All tasks of one model instance have
  the same value type \<open>'v\<close> and user exception type \<open>'x\<close>.
\<close>

subsection \<open>The standard library's shared state, packaged task and future\<close>

datatype future_errc =
  broken_promise | future_already_retrieved | promise_already_satisfied | no_state

text \<open>What a result slot can hold once it is ready, besides a value: the exception the
  callable threw, or a \<^verbatim>\<open>std::future_error\<close>.\<close>

datatype 'x failure = Thrown 'x | Future_error future_errc

datatype ('x, 'v) shared_state = Pending | Has_value 'v | Has_exception "'x failure"

type_synonym ('w, 'x, 'v) callable = "'w \<Rightarrow> ('x + 'v) \<times> 'w"

record ('w, 'x, 'v) sys =
  shared :: "('x, 'v) shared_state list"
  world :: 'w

definition lookup :: "('x, 'v) shared_state list \<Rightarrow> nat \<Rightarrow> ('x, 'v) shared_state option" where
  "lookup h i = (if i < length h then Some (h ! i) else None)"

text \<open>A \<^verbatim>\<open>std::packaged_task<RT()>\<close> owns a stored callable and a reference to its shared
  state; a default-constructed or moved-from one has no shared state.\<close>

record ('w, 'x, 'v) packaged_task =
  stored :: "('w, 'x, 'v) callable"
  pt_state :: "nat option"

text \<open>Whether the slot a reference points to is still unwritten.\<close>

definition is_pending :: "nat option \<Rightarrow> ('w, 'x, 'v) sys \<Rightarrow> bool" where
  "is_pending r s =
     (case r of None \<Rightarrow> False
      | Some i \<Rightarrow> (case lookup (shared s) i of Some Pending \<Rightarrow> True | _ \<Rightarrow> False))"

text \<open>What the shared state becomes when the stored callable has run: its value, or the
  exception it threw, which the packaged task catches and stores.\<close>

definition result_state :: "'x + 'v \<Rightarrow> ('x, 'v) shared_state" where
  "result_state r = (case r of Inl x \<Rightarrow> Has_exception (Thrown x) | Inr v \<Rightarrow> Has_value v)"

text \<open>\<^verbatim>\<open>std::packaged_task::operator()\<close>: throws \<^verbatim>\<open>future_error\<close> when there is no shared
  state (\<open>no_state\<close>) or the stored task has already been invoked
  (\<open>promise_already_satisfied\<close>); otherwise it runs the stored callable and makes the
  shared state ready with the returned value, or with the exception the callable threw.
  A reference outside the heap does not arise from the operations below (slots are only
  ever appended); it is answered like a missing shared state.\<close>

definition invoke ::
  "('w, 'x, 'v) packaged_task \<Rightarrow> ('w, 'x, 'v) sys \<Rightarrow> future_errc + ('w, 'x, 'v) sys" where
  "invoke pt s =
     (case pt_state pt of
        None \<Rightarrow> Inl no_state
      | Some i \<Rightarrow>
          (case lookup (shared s) i of
             None \<Rightarrow> Inl no_state
           | Some Pending \<Rightarrow>
               (case stored pt (world s) of
                  (r, w') \<Rightarrow> Inr (s\<lparr>shared := (shared s)[i := result_state r], world := w'\<rparr>))
           | Some _ \<Rightarrow> Inl promise_already_satisfied))"

text \<open>\<^verbatim>\<open>std::packaged_task::~packaged_task\<close> abandons the shared state: a state that is not
  ready is made ready with \<^verbatim>\<open>future_error(broken_promise)\<close>.\<close>

definition pt_destroy ::
  "('w, 'x, 'v) packaged_task \<Rightarrow> ('w, 'x, 'v) sys \<Rightarrow> ('w, 'x, 'v) sys" where
  "pt_destroy pt s =
     (case pt_state pt of
        None \<Rightarrow> s
      | Some i \<Rightarrow>
          (case lookup (shared s) i of
             Some Pending \<Rightarrow>
               s\<lparr>shared := (shared s)[i := Has_exception (Future_error broken_promise)]\<rparr>
           | _ \<Rightarrow> s))"

subsection \<open>class \<^verbatim>\<open>task\<close>\<close>

record ('w, 'x, 'v) task_holder =
  held :: "('w, 'x, 'v) packaged_task"

text \<open>\<^verbatim>\<open>std::unique_ptr<task_iholder> content\<close>: \<open>None\<close> is \<^verbatim>\<open>nullptr\<close>.\<close>

record ('w, 'x, 'v) task =
  content :: "('w, 'x, 'v) task_holder option"

text \<open>\<^verbatim>\<open>task() : content(nullptr)\<close>\<close>

definition task_default :: "('w, 'x, 'v) task" where
  "task_default = \<lparr>content = None\<rparr>"

text \<open>\<^verbatim>\<open>task(std::packaged_task<RT()>&& t) : content(new task_holder<RT>(std::move(t)))\<close>\<close>

definition task_of :: "('w, 'x, 'v) packaged_task \<Rightarrow> ('w, 'x, 'v) task" where
  "task_of t = \<lparr>content = Some \<lparr>held = t\<rparr>\<rparr>"

text \<open>\<^verbatim>\<open>task(task&& rhs)\<close>: the new handle and what is left of \<open>rhs\<close>.\<close>

definition task_move :: "('w, 'x, 'v) task \<Rightarrow> ('w, 'x, 'v) task \<times> ('w, 'x, 'v) task" where
  "task_move rhs = (\<lparr>content = content rhs\<rparr>, rhs\<lparr>content := None\<rparr>)"

definition valid :: "('w, 'x, 'v) task \<Rightarrow> bool" where
  "valid t = (content t \<noteq> None)"

text \<open>How a call of \<^verbatim>\<open>task::execute\<close> can end other than by returning: a
  \<^verbatim>\<open>std::future_error\<close> thrown by the packaged task, or the dereference of a null
  \<open>content\<close>. \<^verbatim>\<open>task::execute\<close> does not test \<open>content\<close>, and C++ leaves the call on a null
  pointer undefined: \<open>Null_dereference\<close> only marks that branch, and no property below
  says how such a call ends.\<close>

datatype fault = Null_dereference | Uncaught future_errc

text \<open>\<^verbatim>\<open>task_holder<RT>::execute() { held(); }\<close>\<close>

definition holder_execute ::
  "('w, 'x, 'v) task_holder \<Rightarrow> ('w, 'x, 'v) sys \<Rightarrow> future_errc + ('w, 'x, 'v) sys" where
  "holder_execute h s = invoke (held h) s"

text \<open>\<^verbatim>\<open>task::execute() { content->execute(); }\<close>, also \<^verbatim>\<open>operator()\<close>.\<close>

definition execute :: "('w, 'x, 'v) task \<Rightarrow> ('w, 'x, 'v) sys \<Rightarrow> fault + ('w, 'x, 'v) sys" where
  "execute t s =
     (case content t of
        None \<Rightarrow> Inl Null_dereference
      | Some h \<Rightarrow> (case holder_execute h s of Inl c \<Rightarrow> Inl (Uncaught c) | Inr s' \<Rightarrow> Inr s'))"

text \<open>The implicit destructor of \<^verbatim>\<open>task\<close>: the \<^verbatim>\<open>unique_ptr\<close> deletes the holder through
  its virtual destructor, which destroys the held packaged task.\<close>

definition task_destroy :: "('w, 'x, 'v) task \<Rightarrow> ('w, 'x, 'v) sys \<Rightarrow> ('w, 'x, 'v) sys" where
  "task_destroy t s = (case content t of None \<Rightarrow> s | Some h \<Rightarrow> pt_destroy (held h) s)"

text \<open>The shared state a handle's packaged task refers to, if any.\<close>

definition slot :: "('w, 'x, 'v) task \<Rightarrow> nat option" where
  "slot t = (case content t of None \<Rightarrow> None | Some h \<Rightarrow> pt_state (held h))"

text \<open>The spec's notion for \<^verbatim>\<open>valid()\<close>, in its words: the handle currently owns an
  unexecuted callable.\<close>

definition owns_unexecuted :: "('w, 'x, 'v) sys \<Rightarrow> ('w, 'x, 'v) task \<Rightarrow> bool" where
  "owns_unexecuted s t =
     (case content t of None \<Rightarrow> False | Some h \<Rightarrow> is_pending (pt_state (held h)) s)"

subsection \<open>class \<^verbatim>\<open>queue\<close>\<close>

text \<open>The mutex and the condition variable are not state of the model: every member
  function holds the mutex for its whole body, so each call is one atomic step.\<close>

record ('w, 'x, 'v) queue =
  m_tasks :: "('w, 'x, 'v) task list"
  m_stop :: bool

text \<open>\<^verbatim>\<open>queue() : m_stop(false)\<close>\<close>

definition queue_init :: "('w, 'x, 'v) queue" where
  "queue_init = \<lparr>m_tasks = [], m_stop = False\<rparr>"

definition addWork :: "('w, 'x, 'v) task \<Rightarrow> ('w, 'x, 'v) queue \<Rightarrow> ('w, 'x, 'v) queue" where
  "addWork t q = q\<lparr>m_tasks := m_tasks q @ [fst (task_move t)]\<rparr>"

text \<open>\<^verbatim>\<open>getWork\<close> waits on the condition variable while the queue is neither stopped nor
  non-empty: in such a state the call does not return, which is the result \<open>None\<close>.
  Otherwise it returns the handle and the queue it leaves behind. The local \<^verbatim>\<open>task\<close> is
  default-constructed, so the move assignment from \<^verbatim>\<open>m_tasks.back()\<close> deletes no holder,
  and \<^verbatim>\<open>pop_back\<close> destroys a handle that the move has emptied.\<close>

definition getWork ::
  "('w, 'x, 'v) queue \<Rightarrow> (('w, 'x, 'v) task \<times> ('w, 'x, 'v) queue) option" where
  "getWork q =
     (if \<not> m_stop q \<and> m_tasks q = [] then None
      else
        let task = task_default in
        if \<not> m_stop q then
          Some (fst (task_move (fst (task_move (last (m_tasks q))))),
                q\<lparr>m_tasks := butlast (m_tasks q)\<rparr>)
        else Some (fst (task_move task), q))"

definition stop :: "('w, 'x, 'v) queue \<Rightarrow> ('w, 'x, 'v) queue" where
  "stop q = q\<lparr>m_stop := True\<rparr>"

subsection \<open>class \<^verbatim>\<open>event\<close>\<close>

text \<open>\<^verbatim>\<open>mutable std::future<RT> m_future\<close>: the reference to the shared state, \<open>None\<close> once
  the future has been moved from or its result retrieved.\<close>

record event =
  m_future :: "nat option"

text \<open>How a call of \<^verbatim>\<open>std::future::get\<close> ends: it keeps waiting while the state is not
  ready; it returns the value or rethrows the stored exception, and releases the shared
  state; on a future without shared state the behaviour is undefined.\<close>

datatype ('x, 'v) outcome = Waits | Yields 'v | Rethrows "'x failure" | Invalid_future

definition future_get :: "nat option \<Rightarrow> ('w, 'x, 'v) sys \<Rightarrow> ('x, 'v) outcome \<times> nat option" where
  "future_get r s =
     (case r of
        None \<Rightarrow> (Invalid_future, None)
      | Some i \<Rightarrow>
          (case lookup (shared s) i of
             None \<Rightarrow> (Invalid_future, None)
           | Some Pending \<Rightarrow> (Waits, Some i)
           | Some (Has_value v) \<Rightarrow> (Yields v, None)
           | Some (Has_exception x) \<Rightarrow> (Rethrows x, None)))"

text \<open>\<^verbatim>\<open>RT wait() const { return m_future.get(); }\<close>\<close>

definition wait :: "event \<Rightarrow> ('w, 'x, 'v) sys \<Rightarrow> ('x, 'v) outcome \<times> event" where
  "wait e s = (case future_get (m_future e) s of (r, f) \<Rightarrow> (r, e\<lparr>m_future := f\<rparr>))"

text \<open>\<^verbatim>\<open>RT get() const { return m_future.get(); }\<close>\<close>

definition get :: "event \<Rightarrow> ('w, 'x, 'v) sys \<Rightarrow> ('x, 'v) outcome \<times> event" where
  "get e s = (case future_get (m_future e) s of (r, f) \<Rightarrow> (r, e\<lparr>m_future := f\<rparr>))"

subsection \<open>Submission: \<^verbatim>\<open>createF\<close> and \<^verbatim>\<open>createM\<close>\<close>

text \<open>Constructing a \<^verbatim>\<open>std::packaged_task\<close> from a callable allocates a fresh shared state;
  \<^verbatim>\<open>get_future\<close> hands out a reference to the same state. Both helpers call it once, on
  the packaged task they have just constructed, where it cannot throw.\<close>

definition pt_make ::
  "('w, 'x, 'v) callable \<Rightarrow> ('w, 'x, 'v) sys \<Rightarrow> ('w, 'x, 'v) packaged_task \<times> ('w, 'x, 'v) sys" where
  "pt_make c s =
     (\<lparr>stored = c, pt_state = Some (length (shared s))\<rparr>, s\<lparr>shared := shared s @ [Pending]\<rparr>)"

definition get_future :: "('w, 'x, 'v) packaged_task \<Rightarrow> nat option" where
  "get_future t = pt_state t"

text \<open>\<^verbatim>\<open>createF(q, f, args...)\<close>: the argument pack is one value \<open>args\<close>; \<^verbatim>\<open>std::bind\<close> stores
  \<open>f\<close> and \<open>args\<close> and calls \<open>f args\<close> when the task is invoked.\<close>

definition createF ::
  "('w, 'x, 'v) queue \<Rightarrow> ('w, 'x, 'v) sys \<Rightarrow> ('a \<Rightarrow> ('w, 'x, 'v) callable) \<Rightarrow> 'a \<Rightarrow>
     event \<times> ('w, 'x, 'v) queue \<times> ('w, 'x, 'v) sys" where
  "createF q s f args =
     (case pt_make (f args) s of
        (t, s') \<Rightarrow>
          let e = \<lparr>m_future = get_future t\<rparr>;
              q' = addWork (task_of t) q
          in (e, q', s'))"

text \<open>\<^verbatim>\<open>createM(q, f, c, args...)\<close>: \<open>c\<close> is bound by reference (\<^verbatim>\<open>std::ref\<close>), so \<open>c\<close> stands
  for the reference and the member function reads the object in the world when it runs.\<close>

definition createM ::
  "('w, 'x, 'v) queue \<Rightarrow> ('w, 'x, 'v) sys \<Rightarrow> ('c \<Rightarrow> 'a \<Rightarrow> ('w, 'x, 'v) callable) \<Rightarrow> 'c \<Rightarrow> 'a \<Rightarrow>
     event \<times> ('w, 'x, 'v) queue \<times> ('w, 'x, 'v) sys" where
  "createM q s f c args =
     (case pt_make (f c args) s of
        (t, s') \<Rightarrow>
          let e = \<lparr>m_future = get_future t\<rparr>;
              q' = addWork (task_of t) q
          in (e, q', s'))"

subsection \<open>The \<^verbatim>\<open>worker\<close> loop\<close>

text \<open>A run of \<^verbatim>\<open>worker(q)\<close> with no other thread acting on the queue: the handles it
  executed, in order; how the run ended (the loop was left by \<^verbatim>\<open>break\<close>; the thread is
  suspended in \<^verbatim>\<open>getWork\<close>; an exception or a null dereference escaped from \<^verbatim>\<open>t()\<close>);
  and the queue and the system state at that point. The handle \<open>t\<close> is local to one
  iteration and destroyed at its end.\<close>

datatype ending = Exited | Suspended | Crashed fault

record ('w, 'x, 'v) run =
  executed :: "('w, 'x, 'v) task list"
  ending :: ending
  queue_after :: "('w, 'x, 'v) queue"
  sys_after :: "('w, 'x, 'v) sys"

function worker :: "('w, 'x, 'v) queue \<Rightarrow> ('w, 'x, 'v) sys \<Rightarrow> ('w, 'x, 'v) run" where
  "worker q s =
     (case getWork q of
        None \<Rightarrow> \<lparr>executed = [], ending = Suspended, queue_after = q, sys_after = s\<rparr>
      | Some (t, q') \<Rightarrow>
          if \<not> valid t then
            \<lparr>executed = [], ending = Exited, queue_after = q', sys_after = task_destroy t s\<rparr>
          else
            (case execute t s of
               Inl e \<Rightarrow> \<lparr>executed = [], ending = Crashed e, queue_after = q', sys_after = s\<rparr>
             | Inr s' \<Rightarrow>
                 let r = worker q' (task_destroy t s') in r\<lparr>executed := t # executed r\<rparr>))"
  by pat_completeness auto
termination
  by (relation "measure (\<lambda>(q, s). length (m_tasks q))")
     (auto simp: getWork_def valid_def task_default_def task_move_def Let_def
           split: if_splits)

declare worker.simps [simp del]

subsection \<open>Sequences of queue operations\<close>

datatype ('w, 'x, 'v) op = AddWork "('w, 'x, 'v) task" | GetWork | Stop

text \<open>What the caller of one operation sees: \<^verbatim>\<open>addWork\<close> and \<^verbatim>\<open>stop\<close> return nothing,
  \<^verbatim>\<open>getWork\<close> hands over a task or leaves its caller blocked.\<close>

datatype ('w, 'x, 'v) reply = Done | Handed "('w, 'x, 'v) task" | Blocked

fun perform ::
  "('w, 'x, 'v) op \<Rightarrow> ('w, 'x, 'v) queue \<Rightarrow> ('w, 'x, 'v) reply \<times> ('w, 'x, 'v) queue" where
  "perform (AddWork t) q = (Done, addWork t q)"
| "perform GetWork q = (case getWork q of None \<Rightarrow> (Blocked, q) | Some (t, q') \<Rightarrow> (Handed t, q'))"
| "perform Stop q = (Done, stop q)"

fun perform_all ::
  "('w, 'x, 'v) op list \<Rightarrow> ('w, 'x, 'v) queue \<Rightarrow> ('w, 'x, 'v) reply list \<times> ('w, 'x, 'v) queue" where
  "perform_all [] q = ([], q)"
| "perform_all (x # xs) q =
     (case perform x q of (r, q') \<Rightarrow> (case perform_all xs q' of (rs, q'') \<Rightarrow> (r # rs, q'')))"

text \<open>The tasks a sequence of operations enqueues, in order.\<close>

fun added :: "('w, 'x, 'v) op list \<Rightarrow> ('w, 'x, 'v) task list" where
  "added [] = []"
| "added (AddWork t # xs) = t # added xs"
| "added (GetWork # xs) = added xs"
| "added (Stop # xs) = added xs"

text \<open>What each operation answers on a stopped queue.\<close>

fun stopped_reply :: "('w, 'x, 'v) op \<Rightarrow> ('w, 'x, 'v) reply" where
  "stopped_reply (AddWork t) = Done"
| "stopped_reply GetWork = Handed task_default"
| "stopped_reply Stop = Done"

subsection \<open>What happens to the results afterwards\<close>

text \<open>Steps that other code takes on the system state: a task is executed (an
  \<^verbatim>\<open>execute\<close> that ends in a fault changes nothing), a task is destroyed, a packaged task
  is constructed for a submission. \<open>later as s\<close> is the state after the steps \<open>as\<close>.\<close>

datatype ('w, 'x, 'v) action =
  Runs "('w, 'x, 'v) task" | Drops "('w, 'x, 'v) task" | Submits "('w, 'x, 'v) callable"

fun act :: "('w, 'x, 'v) action \<Rightarrow> ('w, 'x, 'v) sys \<Rightarrow> ('w, 'x, 'v) sys" where
  "act (Runs t) s = (case execute t s of Inl e \<Rightarrow> s | Inr s' \<Rightarrow> s')"
| "act (Drops t) s = task_destroy t s"
| "act (Submits c) s = snd (pt_make c s)"

fun later :: "('w, 'x, 'v) action list \<Rightarrow> ('w, 'x, 'v) sys \<Rightarrow> ('w, 'x, 'v) sys" where
  "later [] s = s"
| "later (a # as) s = later as (act a s)"

subsection \<open>Notions used in the statements\<close>

text \<open>How the reader of the event sees what the callable did.\<close>

definition passed_on :: "'x + 'v \<Rightarrow> ('x, 'v) outcome" where
  "passed_on r = (case r of Inl x \<Rightarrow> Rethrows (Thrown x) | Inr v \<Rightarrow> Yields v)"

text \<open>A task and an event are paired when the task's packaged task and the event's
  future refer to the same shared state, as the two that \<^verbatim>\<open>createF\<close> makes do.\<close>

definition paired :: "('w, 'x, 'v) task \<Rightarrow> event \<Rightarrow> bool" where
  "paired t e = (slot t \<noteq> None \<and> slot t = m_future e)"

text \<open>Handles of distinct packaged tasks, none of them executed yet.\<close>

definition runnable :: "('w, 'x, 'v) sys \<Rightarrow> ('w, 'x, 'v) task list \<Rightarrow> bool" where
  "runnable s ts = (distinct (map slot ts) \<and> list_all (owns_unexecuted s) ts)"

text \<open>Callables for concrete runs. The world is a log of numbers; \<open>square\<close> is the
  spec's \<^verbatim>\<open>f(x) = x*x\<close>, \<open>logged n\<close> appends \<open>n\<close> to the log and returns it, \<open>failing m\<close>
  throws \<open>m\<close>.\<close>

definition square :: "nat \<Rightarrow> (nat list, string, nat) callable" where
  "square x w = (Inr (x * x), w)"

definition logged :: "nat \<Rightarrow> (nat list, string, nat) callable" where
  "logged n w = (Inr n, w @ [n])"

definition failing :: "string \<Rightarrow> (nat list, string, nat) callable" where
  "failing m w = (Inl m, w)"

text \<open>A member function for \<^verbatim>\<open>createM\<close>: the object is the counter at index \<open>c\<close> of the
  world; \<open>fetch_add c x\<close> returns the counter and adds \<open>x\<close> to it.\<close>

definition fetch_add :: "nat \<Rightarrow> nat \<Rightarrow> (nat list, string, nat) callable" where
  "fetch_add c x w =
     (if c < length w then (Inr (w ! c), w[c := w ! c + x]) else (Inl ''no such object'', w))"

text \<open>The handle of a packaged task around \<open>logged n\<close> whose shared state is slot \<open>i\<close>.\<close>

definition job :: "nat \<Rightarrow> nat \<Rightarrow> (nat list, string, nat) task" where
  "job n i = task_of \<lparr>stored = logged n, pt_state = Some i\<rparr>"

section \<open>Auxiliary facts\<close>

subsection \<open>The queue operations\<close>

lemma task_move_fst [simp]: "fst (task_move t) = (t :: ('w, 'x, 'v) task)"
  by (cases t) (simp add: task_move_def)

lemma getWork_stopped: "m_stop q \<Longrightarrow> getWork q = Some (task_default, q)"
  by (simp add: getWork_def)

lemma getWork_running:
  "\<not> m_stop q \<Longrightarrow> m_tasks q \<noteq> [] \<Longrightarrow>
     getWork q = Some (last (m_tasks q), q\<lparr>m_tasks := butlast (m_tasks q)\<rparr>)"
  by (simp add: getWork_def)

lemma getWork_addWork: "\<not> m_stop q \<Longrightarrow> getWork (addWork t q) = Some (t, q)"
  by (simp add: getWork_def addWork_def)

lemma stop_idem: "stop (stop q) = stop q"
  by (simp add: stop_def)

lemma perform_keeps_stop: "m_stop q \<Longrightarrow> m_stop (snd (perform x q))"
  by (cases x) (auto simp: addWork_def stop_def getWork_def split: option.splits)

lemma perform_all_keeps_stop: "m_stop q \<Longrightarrow> m_stop (snd (perform_all xs q))"
proof (induction xs arbitrary: q)
  case Nil
  then show ?case by simp
next
  case (Cons x xs)
  from Cons.prems have "m_stop (snd (perform x q))" by (rule perform_keeps_stop)
  then have "m_stop (snd (perform_all xs (snd (perform x q))))" by (rule Cons.IH)
  then show ?case by (auto split: prod.splits)
qed

lemma stop_funpow: "(stop ^^ n) (stop q) = stop q"
  by (induction n) (simp_all add: stop_idem)

lemma perform_stopped:
  "m_stop q \<Longrightarrow> perform x q = (stopped_reply x, q\<lparr>m_tasks := m_tasks q @ added [x]\<rparr>)"
  by (cases x) (simp_all add: addWork_def stop_def getWork_stopped)

lemma perform_all_stopped:
  "m_stop q \<Longrightarrow>
     perform_all xs q = (map stopped_reply xs, q\<lparr>m_tasks := m_tasks q @ added xs\<rparr>)"
proof (induction xs arbitrary: q)
  case Nil
  then show ?case by simp
next
  case (Cons x xs)
  let ?q1 = "q\<lparr>m_tasks := m_tasks q @ added [x]\<rparr>"
  have step: "perform x q = (stopped_reply x, ?q1)"
    using Cons.prems by (rule perform_stopped)
  have "m_stop ?q1" using Cons.prems by simp
  then have rest: "perform_all xs ?q1 = (map stopped_reply xs, ?q1\<lparr>m_tasks := m_tasks ?q1 @ added xs\<rparr>)"
    by (rule Cons.IH)
  have "added (x # xs) = added [x] @ added xs" by (cases x) simp_all
  with step rest show ?case by simp
qed

subsection \<open>Executing and destroying a task\<close>

lemma lookup_update:
  "lookup (h[i := v]) j = (if j < length h then Some (if j = i then v else h ! j) else None)"
  by (simp add: lookup_def)

lemma lookup_Some: "lookup h i = Some v \<Longrightarrow> i < length h"
  by (simp add: lookup_def split: if_splits)

lemma result_state_ready [simp]: "result_state r \<noteq> Pending"
  by (cases r) (simp_all add: result_state_def)

lemma owns_unexecuted_iff:
  "owns_unexecuted s t \<longleftrightarrow> (\<exists>i. slot t = Some i \<and> lookup (shared s) i = Some Pending)"
  by (auto simp: owns_unexecuted_def slot_def is_pending_def
           split: option.splits shared_state.splits)

lemma owns_unexecuted_valid: "owns_unexecuted s t \<Longrightarrow> valid t"
  by (simp add: owns_unexecuted_def valid_def split: option.splits)

lemma execute_pending:
  assumes "slot t = Some i" and "lookup (shared s) i = Some Pending"
  shows "execute t s =
     Inr (s\<lparr>shared := (shared s)[i := result_state (fst (stored (held (the (content t))) (world s)))],
           world := snd (stored (held (the (content t))) (world s))\<rparr>)"
  using assms
  by (auto simp: execute_def holder_execute_def invoke_def slot_def
           split: option.splits prod.splits)

lemma execute_Inr_D:
  assumes "execute t s = Inr s'"
  shows "\<exists>i. slot t = Some i \<and> lookup (shared s) i = Some Pending
     \<and> s' = s\<lparr>shared := (shared s)[i := result_state (fst (stored (held (the (content t))) (world s)))],
           world := snd (stored (held (the (content t))) (world s))\<rparr>"
  using assms
  by (auto simp: execute_def holder_execute_def invoke_def slot_def
           split: option.splits prod.splits shared_state.splits sum.splits)

lemma execute_not_pending:
  assumes "\<not> owns_unexecuted s t"
  shows "\<exists>e. execute t s = Inl e"
  using assms
  by (auto simp: execute_def holder_execute_def invoke_def owns_unexecuted_def is_pending_def
           split: option.splits prod.splits shared_state.splits sum.splits)

lemma execute_ready:
  assumes "slot t = Some i" and "lookup (shared s) i = Some c" and "c \<noteq> Pending"
  shows "execute t s = Inl (Uncaught promise_already_satisfied)"
  using assms
  by (auto simp: execute_def holder_execute_def invoke_def slot_def
           split: option.splits prod.splits shared_state.splits sum.splits)

lemma execute_valid_fault:
  assumes "valid t" and "execute t s = Inl e"
  shows "\<exists>c. e = Uncaught c"
  using assms by (auto simp: execute_def valid_def split: option.splits sum.splits)

lemma execute_no_state:
  assumes "valid t" and "slot t = None"
  shows "execute t s = Inl (Uncaught no_state)"
  using assms
  by (auto simp: execute_def valid_def slot_def holder_execute_def invoke_def split: option.splits)

lemma execute_returns_iff: "(\<exists>s2. execute t s = Inr s2) \<longleftrightarrow> owns_unexecuted s t"
proof
  assume "\<exists>s2. execute t s = Inr s2"
  then obtain s2 where "execute t s = Inr s2" ..
  from execute_Inr_D [OF this] show "owns_unexecuted s t"
    by (auto simp: owns_unexecuted_iff)
next
  assume "owns_unexecuted s t"
  then show "\<exists>s2. execute t s = Inr s2"
    using execute_pending by (auto simp: owns_unexecuted_iff)
qed

lemma task_destroy_ready:
  assumes "slot t = Some i" and "lookup (shared s) i = Some c" and "c \<noteq> Pending"
  shows "task_destroy t s = s"
  using assms
  by (auto simp: task_destroy_def pt_destroy_def slot_def
           split: option.splits shared_state.splits)

lemma task_destroy_empty: "\<not> valid t \<Longrightarrow> task_destroy t s = s"
  by (simp add: task_destroy_def valid_def)

lemma task_destroy_pending:
  assumes "slot t = Some i" and "lookup (shared s) i = Some Pending"
  shows "task_destroy t s = s\<lparr>shared := (shared s)[i := Has_exception (Future_error broken_promise)]\<rparr>"
  using assms
  by (auto simp: task_destroy_def pt_destroy_def slot_def
           split: option.splits shared_state.splits)

lemma execute_then_destroy:
  assumes "execute t s = Inr s'"
  shows "task_destroy t s' = s'"
proof -
  from execute_Inr_D [OF assms] obtain i where
    i: "slot t = Some i" "lookup (shared s) i = Some Pending"
    and s': "s' = s\<lparr>shared := (shared s)[i := result_state (fst (stored (held (the (content t))) (world s)))],
           world := snd (stored (held (the (content t))) (world s))\<rparr>"
    by blast
  from i(2) have "i < length (shared s)" by (rule lookup_Some)
  then have "lookup (shared s') i = Some (result_state (fst (stored (held (the (content t))) (world s))))"
    by (simp add: s' lookup_update)
  with i(1) show ?thesis by (rule task_destroy_ready) simp
qed

lemma future_get_exception:
  "lookup (shared s) i = Some (Has_exception x) \<Longrightarrow> future_get (Some i) s = (Rethrows x, None)"
  by (simp add: future_get_def)

lemma future_get_pending:
  "lookup (shared s) i = Some Pending \<Longrightarrow> future_get (Some i) s = (Waits, Some i)"
  by (simp add: future_get_def)

subsection \<open>Unfolding the worker loop\<close>

lemma worker_suspended:
  "getWork q = None \<Longrightarrow>
     worker q s = \<lparr>executed = [], ending = Suspended, queue_after = q, sys_after = s\<rparr>"
  by (simp add: worker.simps)

lemma worker_exit:
  "getWork q = Some (t, q') \<Longrightarrow> \<not> valid t \<Longrightarrow>
     worker q s = \<lparr>executed = [], ending = Exited, queue_after = q', sys_after = s\<rparr>"
  by (simp add: worker.simps [of q] task_destroy_empty)

lemma worker_crash:
  "getWork q = Some (t, q') \<Longrightarrow> valid t \<Longrightarrow> execute t s = Inl e \<Longrightarrow>
     worker q s = \<lparr>executed = [], ending = Crashed e, queue_after = q', sys_after = s\<rparr>"
  by (simp add: worker.simps [of q])

lemma worker_continue:
  "getWork q = Some (t, q') \<Longrightarrow> valid t \<Longrightarrow> execute t s = Inr s' \<Longrightarrow>
     worker q s = (worker q' s')\<lparr>executed := t # executed (worker q' s')\<rparr>"
  by (simp add: worker.simps [of q] execute_then_destroy Let_def)

lemma worker_stopped:
  "m_stop q \<Longrightarrow>
     worker q s = \<lparr>executed = [], ending = Exited, queue_after = q, sys_after = s\<rparr>"
  by (rule worker_exit [OF getWork_stopped]) (simp_all add: valid_def task_default_def)

lemma getWork_Some_D:
  assumes "getWork q = Some (t, q')"
  shows "(m_stop q \<and> t = task_default \<and> q' = q)
       \<or> (\<not> m_stop q \<and> m_tasks q \<noteq> [] \<and> t = last (m_tasks q)
            \<and> q' = q\<lparr>m_tasks := butlast (m_tasks q)\<rparr>)"
  using assms by (auto simp: getWork_def split: if_splits)

lemma worker_executes_valid: "list_all valid (executed (worker q s))"
proof (induction q s rule: worker.induct)
  case (1 q s)
  show ?case
  proof (cases "getWork q")
    case None
    then show ?thesis by (simp add: worker_suspended)
  next
    case (Some p)
    obtain t q' where p: "p = (t, q')" by (cases p)
    show ?thesis
    proof (cases "valid t")
      case False
      with Some p show ?thesis by (simp add: worker_exit)
    next
      case True
      show ?thesis
      proof (cases "execute t s")
        case (Inl e)
        with Some p True show ?thesis by (simp add: worker_crash)
      next
        case (Inr s')
        with Some p True have "list_all valid (executed (worker q' (task_destroy t s')))"
          using "1.IH" by simp
        moreover have "task_destroy t s' = s'" using Inr by (rule execute_then_destroy)
        ultimately show ?thesis
          using Some p True Inr by (simp add: worker_continue)
      qed
    qed
  qed
qed

lemma worker_exit_cause:
  "ending (worker q s) = Exited \<Longrightarrow> m_stop q \<or> \<not> list_all valid (m_tasks q)"
proof (induction q s rule: worker.induct)
  case (1 q s)
  show ?case
  proof (cases "getWork q")
    case None
    with "1.prems" show ?thesis by (simp add: worker_suspended)
  next
    case (Some p)
    obtain t q' where p: "p = (t, q')" by (cases p)
    from Some p have g: "getWork q = Some (t, q')" by simp
    from getWork_Some_D [OF g] show ?thesis
    proof
      assume "m_stop q \<and> t = task_default \<and> q' = q"
      then show ?thesis by simp
    next
      assume r: "\<not> m_stop q \<and> m_tasks q \<noteq> [] \<and> t = last (m_tasks q)
            \<and> q' = q\<lparr>m_tasks := butlast (m_tasks q)\<rparr>"
      then have mem: "t \<in> set (m_tasks q)" by simp
      show ?thesis
      proof (cases "valid t")
        case False
        with mem show ?thesis by (auto simp: list_all_iff)
      next
        case True
        show ?thesis
        proof (cases "execute t s")
          case (Inl e)
          with g True "1.prems" show ?thesis by (simp add: worker_crash)
        next
          case (Inr s')
          have d: "task_destroy t s' = s'" using Inr by (rule execute_then_destroy)
          from g True Inr "1.prems" have "ending (worker q' s') = Exited"
            by (simp add: worker_continue)
          with g True Inr d have "m_stop q' \<or> \<not> list_all valid (m_tasks q')"
            using "1.IH" by simp
          with r show ?thesis
            by (auto simp: list_all_iff dest: in_set_butlastD)
        qed
      qed
    qed
  qed
qed

lemma runnable_snoc_D:
  assumes "runnable s (ts @ [t])"
  shows "\<exists>i. slot t = Some i \<and> lookup (shared s) i = Some Pending \<and> Some i \<notin> slot ` set ts"
    and "runnable s ts"
  using assms by (auto simp: runnable_def owns_unexecuted_iff)

lemma owns_unexecuted_other:
  assumes "owns_unexecuted s u" and "slot u \<noteq> Some i"
  shows "owns_unexecuted (s\<lparr>shared := (shared s)[i := c], world := w\<rparr>) u"
proof -
  from assms(1) obtain j where j: "slot u = Some j" "lookup (shared s) j = Some Pending"
    by (auto simp: owns_unexecuted_iff)
  from j(2) have "j < length (shared s)" by (rule lookup_Some)
  moreover from j(1) assms(2) have "j \<noteq> i" by simp
  ultimately have "lookup (shared (s\<lparr>shared := (shared s)[i := c], world := w\<rparr>)) j = Some Pending"
    using j(2) by (simp add: lookup_def)
  with j(1) show ?thesis by (auto simp: owns_unexecuted_iff)
qed

lemma runnable_other:
  assumes "runnable s ts" and "Some i \<notin> slot ` set ts"
  shows "runnable (s\<lparr>shared := (shared s)[i := c], world := w\<rparr>) ts"
proof -
  have "owns_unexecuted (s\<lparr>shared := (shared s)[i := c], world := w\<rparr>) u" if "u \<in> set ts" for u
  proof -
    from that assms(1) have "owns_unexecuted s u" by (simp add: runnable_def list_all_iff)
    moreover from that assms(2) have "slot u \<noteq> Some i" by force
    ultimately show ?thesis by (rule owns_unexecuted_other)
  qed
  with assms(1) show ?thesis by (simp add: runnable_def list_all_iff)
qed

lemma worker_drains:
  assumes "\<not> m_stop q" and "m_tasks q = ts" and "runnable s ts"
  shows "executed (worker q s) = rev ts \<and> ending (worker q s) = Suspended
       \<and> queue_after (worker q s) = q\<lparr>m_tasks := []\<rparr>"
  using assms
proof (induction ts arbitrary: q s rule: rev_induct)
  case Nil
  then have "getWork q = None" by (simp add: getWork_def)
  then show ?case using Nil by (simp add: worker_suspended)
next
  case (snoc t ts)
  let ?q' = "q\<lparr>m_tasks := ts\<rparr>"
  from snoc.prems have g: "getWork q = Some (t, ?q')" by (simp add: getWork_running)
  from runnable_snoc_D [OF snoc.prems(3)] obtain i where
    i: "slot t = Some i" "lookup (shared s) i = Some Pending" "Some i \<notin> slot ` set ts"
    and rest: "runnable s ts" by blast
  let ?s' = "s\<lparr>shared := (shared s)[i := result_state (fst (stored (held (the (content t))) (world s)))],
           world := snd (stored (held (the (content t))) (world s))\<rparr>"
  have ex: "execute t s = Inr ?s'" using i(1,2) by (rule execute_pending)
  have v: "valid t" using i(1) by (auto simp: valid_def slot_def split: option.splits)
  have w: "worker q s = (worker ?q' ?s')\<lparr>executed := t # executed (worker ?q' ?s')\<rparr>"
    using g v ex by (rule worker_continue)
  have "runnable ?s' ts" using rest i(3) by (rule runnable_other)
  moreover have "\<not> m_stop ?q'" "m_tasks ?q' = ts" using snoc.prems by simp_all
  ultimately have "executed (worker ?q' ?s') = rev ts \<and> ending (worker ?q' ?s') = Suspended
       \<and> queue_after (worker ?q' ?s') = ?q'\<lparr>m_tasks := []\<rparr>"
    using snoc.IH by blast
  with w show ?case by simp
qed

subsection \<open>Results are written once\<close>

lemma task_destroy_cases:
  "task_destroy t s = s
   \<or> (\<exists>i. lookup (shared s) i = Some Pending
         \<and> task_destroy t s = s\<lparr>shared := (shared s)[i := Has_exception (Future_error broken_promise)]\<rparr>)"
  by (auto simp: task_destroy_def pt_destroy_def split: option.splits shared_state.splits)

lemma settled_act:
  assumes "lookup (shared s) i = Some c" and "c \<noteq> Pending"
  shows "lookup (shared (act a s)) i = Some c"
proof (cases a)
  case (Runs t)
  show ?thesis
  proof (cases "execute t s")
    case (Inl e)
    with Runs assms show ?thesis by simp
  next
    case (Inr s')
    from execute_Inr_D [OF Inr] obtain j r w where
      j: "lookup (shared s) j = Some Pending"
      and s': "s' = s\<lparr>shared := (shared s)[j := r], world := w\<rparr>"
      by blast
    from j assms have "j \<noteq> i" by auto
    with assms(1) have "lookup (shared s') i = Some c"
      by (simp add: s' lookup_def split: if_splits)
    with Runs Inr show ?thesis by simp
  qed
next
  case (Drops t)
  from task_destroy_cases [of t s] show ?thesis
  proof
    assume "task_destroy t s = s"
    with Drops assms show ?thesis by simp
  next
    assume "\<exists>j. lookup (shared s) j = Some Pending
         \<and> task_destroy t s = s\<lparr>shared := (shared s)[j := Has_exception (Future_error broken_promise)]\<rparr>"
    then obtain j where j: "lookup (shared s) j = Some Pending"
      and d: "task_destroy t s = s\<lparr>shared := (shared s)[j := Has_exception (Future_error broken_promise)]\<rparr>"
      by blast
    from j assms have "j \<noteq> i" by auto
    with assms(1) have "lookup (shared (task_destroy t s)) i = Some c"
      by (simp add: d lookup_def split: if_splits)
    with Drops show ?thesis by simp
  qed
next
  case (Submits f)
  from assms(1) have "lookup (shared (snd (pt_make f s))) i = Some c"
    by (simp add: pt_make_def lookup_def nth_append split: if_splits)
  with Submits show ?thesis by simp
qed

lemma settled_later:
  "lookup (shared s) i = Some c \<Longrightarrow> c \<noteq> Pending \<Longrightarrow> lookup (shared (later as s)) i = Some c"
  by (induction as arbitrary: s) (simp_all add: settled_act)

subsection \<open>Submission, and the two ends of a pair\<close>

lemma createF_D:
  assumes "createF q s f args = (e, q', s')"
  shows "e = \<lparr>m_future = Some (length (shared s))\<rparr>"
    and "q' = q\<lparr>m_tasks := m_tasks q @ [task_of \<lparr>stored = f args, pt_state = Some (length (shared s))\<rparr>]\<rparr>"
    and "s' = s\<lparr>shared := shared s @ [Pending]\<rparr>"
  using assms by (auto simp: createF_def pt_make_def get_future_def addWork_def Let_def)

lemma createM_D:
  assumes "createM q s f c args = (e, q', s')"
  shows "e = \<lparr>m_future = Some (length (shared s))\<rparr>"
    and "q' = q\<lparr>m_tasks := m_tasks q @ [task_of \<lparr>stored = f c args, pt_state = Some (length (shared s))\<rparr>]\<rparr>"
    and "s' = s\<lparr>shared := shared s @ [Pending]\<rparr>"
  using assms by (auto simp: createM_def pt_make_def get_future_def addWork_def Let_def)

text \<open>What a submission leaves: the new handle is the last of the queue, it holds the
  bound callable, it is paired with the event, and the shared state is pending.\<close>

lemma submitted:
  assumes "e = \<lparr>m_future = Some (length (shared s))\<rparr>"
    and "q' = q\<lparr>m_tasks := m_tasks q @ [task_of \<lparr>stored = c, pt_state = Some (length (shared s))\<rparr>]\<rparr>"
    and "s' = s\<lparr>shared := shared s @ [Pending]\<rparr>"
  shows "paired (last (m_tasks q')) e"
    and "is_pending (m_future e) s'"
    and "stored (held (the (content (last (m_tasks q'))))) = c"
    and "valid (last (m_tasks q'))"
    and "getWork q' = (if m_stop q then Some (task_default, q') else Some (last (m_tasks q'), q))"
  using assms
  by (simp_all add: paired_def slot_def task_of_def is_pending_def lookup_def valid_def getWork_def)

text \<open>Executing the task of a pair whose shared state is pending, then reading the event,
  at once or later.\<close>

lemma execute_then_get:
  assumes "paired t e" and "is_pending (m_future e) s"
    and "stored (held (the (content t))) (world s) = (r, w')"
  shows "\<exists>s2. execute t s = Inr s2 \<and> world s2 = w'
           \<and> get e (later as s2) = (passed_on r, e\<lparr>m_future := None\<rparr>)
           \<and> wait e (later as s2) = (passed_on r, e\<lparr>m_future := None\<rparr>)"
proof -
  from assms(1) obtain i where i: "slot t = Some i" "m_future e = Some i"
    by (cases "slot t") (auto simp: paired_def)
  from assms(2) i(2) have p: "lookup (shared s) i = Some Pending"
    by (auto simp: is_pending_def split: option.splits shared_state.splits)
  then have len: "i < length (shared s)" by (rule lookup_Some)
  let ?s2 = "s\<lparr>shared := (shared s)[i := result_state r], world := w'\<rparr>"
  have ex: "execute t s = Inr ?s2"
    using execute_pending [OF i(1) p] assms(3) by simp
  have "lookup (shared ?s2) i = Some (result_state r)" using len by (simp add: lookup_def)
  then have "lookup (shared (later as ?s2)) i = Some (result_state r)"
    by (rule settled_later) simp
  then have "future_get (Some i) (later as ?s2) = (passed_on r, None)"
    by (cases r) (simp_all add: future_get_def result_state_def passed_on_def)
  then have "get e (later as ?s2) = (passed_on r, e\<lparr>m_future := None\<rparr>)"
    and "wait e (later as ?s2) = (passed_on r, e\<lparr>m_future := None\<rparr>)"
    using i(2) by (simp_all add: get_def wait_def)
  with ex show ?thesis by simp
qed

text \<open>Destroying the task of a pair whose shared state is pending, then reading the event.\<close>

lemma destroy_then_get:
  assumes "paired t e" and "is_pending (m_future e) s"
  shows "get e (task_destroy t s) = (Rethrows (Future_error broken_promise), e\<lparr>m_future := None\<rparr>)"
    and "wait e (task_destroy t s) = (Rethrows (Future_error broken_promise), e\<lparr>m_future := None\<rparr>)"
    and "get e s = (Waits, e)" and "wait e s = (Waits, e)"
proof -
  from assms(1) obtain i where i: "slot t = Some i" "m_future e = Some i"
    by (cases "slot t") (auto simp: paired_def)
  from assms(2) i(2) have p: "lookup (shared s) i = Some Pending"
    by (auto simp: is_pending_def split: option.splits shared_state.splits)
  then have len: "i < length (shared s)" by (rule lookup_Some)
  let ?s2 = "s\<lparr>shared := (shared s)[i := Has_exception (Future_error broken_promise)]\<rparr>"
  have d: "task_destroy t s = ?s2" using i(1) p by (rule task_destroy_pending)
  have "lookup (shared ?s2) i = Some (Has_exception (Future_error broken_promise))"
    using len by (simp add: lookup_def)
  then have "future_get (Some i) ?s2 = (Rethrows (Future_error broken_promise), None)"
    by (rule future_get_exception)
  with d i(2) show "get e (task_destroy t s) = (Rethrows (Future_error broken_promise), e\<lparr>m_future := None\<rparr>)"
    and "wait e (task_destroy t s) = (Rethrows (Future_error broken_promise), e\<lparr>m_future := None\<rparr>)"
    by (simp_all add: get_def wait_def)
  from p have "future_get (Some i) s = (Waits, Some i)" by (rule future_get_pending)
  with i(2) show "get e s = (Waits, e)" and "wait e s = (Waits, e)"
    by (simp_all add: get_def wait_def)
qed

lemma destroy_then_get_later:
  assumes "paired t e" and "is_pending (m_future e) s"
  shows "get e (later as (task_destroy t s))
           = (Rethrows (Future_error broken_promise), e\<lparr>m_future := None\<rparr>)"
    and "wait e (later as (task_destroy t s))
           = (Rethrows (Future_error broken_promise), e\<lparr>m_future := None\<rparr>)"
proof -
  from assms(1) obtain i where i: "slot t = Some i" "m_future e = Some i"
    by (cases "slot t") (auto simp: paired_def)
  from assms(2) i(2) have p: "lookup (shared s) i = Some Pending"
    by (auto simp: is_pending_def split: option.splits shared_state.splits)
  then have len: "i < length (shared s)" by (rule lookup_Some)
  have "task_destroy t s = s\<lparr>shared := (shared s)[i := Has_exception (Future_error broken_promise)]\<rparr>"
    using i(1) p by (rule task_destroy_pending)
  with len have "lookup (shared (task_destroy t s)) i = Some (Has_exception (Future_error broken_promise))"
    by (simp add: lookup_def)
  then have "lookup (shared (later as (task_destroy t s))) i
      = Some (Has_exception (Future_error broken_promise))"
    by (rule settled_later) simp
  then have "future_get (Some i) (later as (task_destroy t s))
      = (Rethrows (Future_error broken_promise), None)"
    by (rule future_get_exception)
  with i(2) show "get e (later as (task_destroy t s))
           = (Rethrows (Future_error broken_promise), e\<lparr>m_future := None\<rparr>)"
    and "wait e (later as (task_destroy t s))
           = (Rethrows (Future_error broken_promise), e\<lparr>m_future := None\<rparr>)"
    by (simp_all add: get_def wait_def)
qed

text \<open>A submitted task whose callable throws, executed and then taken by a worker.\<close>

lemma failure_of_submitted:
  assumes "e = \<lparr>m_future = Some (length (shared s))\<rparr>"
    and "q' = q\<lparr>m_tasks := m_tasks q @ [task_of \<lparr>stored = c, pt_state = Some (length (shared s))\<rparr>]\<rparr>"
    and "s' = (s :: ('w, 'x, 'v) sys)\<lparr>shared := shared s @ [Pending]\<rparr>"
    and "is_pending (m_future e) (s1 :: ('w, 'x, 'v) sys)"
    and "c (world s1) = (Inl x, w')" and "\<not> m_stop q"
  shows "\<exists>s2. execute (last (m_tasks q')) s1 = Inr s2
     \<and> get e (later as s2) = (Rethrows (Thrown x), e\<lparr>m_future := None\<rparr>)
     \<and> wait e (later as s2) = (Rethrows (Thrown x), e\<lparr>m_future := None\<rparr>)
     \<and> worker q' s1 = (worker q s2)\<lparr>executed := last (m_tasks q') # executed (worker q s2)\<rparr>"
proof -
  note d = assms(1-3)
  let ?t = "last (m_tasks q')"
  from submitted(3) [OF d] assms(5)
  have "stored (held (the (content ?t))) (world s1) = (Inl x, w')" by simp
  from execute_then_get [OF submitted(1) [OF d] assms(4) this]
  obtain s2 where s2: "execute ?t s1 = Inr s2"
    and g: "get e (later as s2) = (Rethrows (Thrown x), e\<lparr>m_future := None\<rparr>)"
       "wait e (later as s2) = (Rethrows (Thrown x), e\<lparr>m_future := None\<rparr>)"
    by (auto simp: passed_on_def)
  have "getWork q' = Some (?t, q)" using submitted(5) [OF d] assms(6) by simp
  from worker_continue [OF this submitted(4) [OF d] s2] s2 g show ?thesis by blast
qed

subsection \<open>How a run of the worker ends\<close>

lemma worker_first_exit:
  "(executed (worker q s) = [] \<and> ending (worker q s) = Exited)
     \<longleftrightarrow> (\<exists>t q'. getWork q = Some (t, q') \<and> \<not> valid t)"
proof (cases "getWork q")
  case None
  then show ?thesis by (simp add: worker_suspended)
next
  case (Some p)
  obtain t q' where p: "p = (t, q')" by (cases p)
  with Some have g: "getWork q = Some (t, q')" by simp
  show ?thesis
  proof (cases "valid t")
    case False
    with g show ?thesis by (simp add: worker_exit)
  next
    case True
    show ?thesis
    proof (cases "execute t s")
      case (Inl e)
      with g True show ?thesis by (simp add: worker_crash)
    next
      case (Inr s')
      with g True show ?thesis by (simp add: worker_continue)
    qed
  qed
qed

lemma worker_crash_kind: "ending (worker q s) = Crashed e \<Longrightarrow> \<exists>c. e = Uncaught c"
proof (induction q s rule: worker.induct)
  case (1 q s)
  show ?case
  proof (cases "getWork q")
    case None
    with "1.prems" show ?thesis by (simp add: worker_suspended)
  next
    case (Some p)
    obtain t q' where p: "p = (t, q')" by (cases p)
    from Some p have g: "getWork q = Some (t, q')" by simp
    show ?thesis
    proof (cases "valid t")
      case False
      with g "1.prems" show ?thesis by (simp add: worker_exit)
    next
      case True
      show ?thesis
      proof (cases "execute t s")
        case (Inl e')
        with g True "1.prems" have "e = e'" by (simp add: worker_crash)
        with execute_valid_fault [OF True Inl] show ?thesis by simp
      next
        case (Inr s')
        have d: "task_destroy t s' = s'" using Inr by (rule execute_then_destroy)
        from g True Inr "1.prems" have "ending (worker q' s') = Crashed e"
          by (simp add: worker_continue)
        with g True Inr d show ?thesis using "1.IH" by simp
      qed
    qed
  qed
qed

lemma worker_runnable_ending:
  assumes "runnable s (m_tasks q)"
  shows "ending (worker q s) = (if m_stop q then Exited else Suspended)"
proof (cases "m_stop q")
  case True
  then show ?thesis by (simp add: worker_stopped)
next
  case False
  from worker_drains [OF False refl assms] False show ?thesis by simp
qed

section \<open>Properties\<close>

text \<open>Claim C1: result delivery. Let \<^verbatim>\<open>createF(q, f, args)\<close> (or \<^verbatim>\<open>createM(q, f, c, args)\<close>)
  return the event \<open>e\<close> and leave the queue \<open>q'\<close>, whose last task is the submitted one. If
  that task is executed in a state \<open>s1\<close> in which the result is still outstanding, and the
  bound call returns the value \<open>v\<close> there, then \<^verbatim>\<open>execute\<close> returns normally and, at once
  or after any further steps \<open>as\<close> of the system, both \<^verbatim>\<open>get()\<close> and \<^verbatim>\<open>wait()\<close> on \<open>e\<close>
  yield exactly \<open>v\<close>.\<close>

theorem result_delivery:
  "(createF q s f args = (e, q', s') \<and> is_pending (m_future e) s1
      \<and> f args (world s1) = (Inr v, w') \<longrightarrow>
      (\<exists>s2. execute (last (m_tasks q')) s1 = Inr s2
         \<and> get e (later as s2) = (Yields v, e\<lparr>m_future := None\<rparr>)
         \<and> wait e (later as s2) = (Yields v, e\<lparr>m_future := None\<rparr>)))
   \<and> (createM q s g c args = (e, q', s') \<and> is_pending (m_future e) s1
      \<and> g c args (world s1) = (Inr v, w') \<longrightarrow>
      (\<exists>s2. execute (last (m_tasks q')) s1 = Inr s2
         \<and> get e (later as s2) = (Yields v, e\<lparr>m_future := None\<rparr>)
         \<and> wait e (later as s2) = (Yields v, e\<lparr>m_future := None\<rparr>)))"
proof (intro conjI impI; elim conjE)
  assume c: "createF q s f args = (e, q', s')" and p: "is_pending (m_future e) s1"
    and r: "f args (world s1) = (Inr v, w')"
  note d = createF_D [OF c]
  from submitted(3) [OF d] r
  have "stored (held (the (content (last (m_tasks q'))))) (world s1) = (Inr v, w')" by simp
  from execute_then_get [OF submitted(1) [OF d] p this]
  show "\<exists>s2. execute (last (m_tasks q')) s1 = Inr s2
         \<and> get e (later as s2) = (Yields v, e\<lparr>m_future := None\<rparr>)
         \<and> wait e (later as s2) = (Yields v, e\<lparr>m_future := None\<rparr>)"
    by (auto simp: passed_on_def)
next
  assume c: "createM q s g c args = (e, q', s')" and p: "is_pending (m_future e) s1"
    and r: "g c args (world s1) = (Inr v, w')"
  note d = createM_D [OF c]
  from submitted(3) [OF d] r
  have "stored (held (the (content (last (m_tasks q'))))) (world s1) = (Inr v, w')" by simp
  from execute_then_get [OF submitted(1) [OF d] p this]
  show "\<exists>s2. execute (last (m_tasks q')) s1 = Inr s2
         \<and> get e (later as s2) = (Yields v, e\<lparr>m_future := None\<rparr>)
         \<and> wait e (later as s2) = (Yields v, e\<lparr>m_future := None\<rparr>)"
    by (auto simp: passed_on_def)
qed

text \<open>A concrete run: \<open>square 7\<close> submitted with \<^verbatim>\<open>createF\<close>, and \<open>fetch_add\<close> on the counter at
  index 0 submitted with \<^verbatim>\<open>createM\<close>, each executed right after its submission.\<close>

theorem result_delivery_witness:
  "createF queue_init \<lparr>shared = [], world = []\<rparr> square 7
     = (\<lparr>m_future = Some 0\<rparr>,
        \<lparr>m_tasks = [task_of \<lparr>stored = square 7, pt_state = Some 0\<rparr>], m_stop = False\<rparr>,
        \<lparr>shared = [Pending], world = []\<rparr>)
   \<and> (\<exists>s2. execute (task_of \<lparr>stored = square 7, pt_state = Some 0\<rparr>)
               \<lparr>shared = [Pending], world = []\<rparr> = Inr s2
          \<and> get \<lparr>m_future = Some 0\<rparr> s2 = (Yields 49, \<lparr>m_future = None\<rparr>)
          \<and> wait \<lparr>m_future = Some 0\<rparr> s2 = (Yields 49, \<lparr>m_future = None\<rparr>))
   \<and> createM queue_init \<lparr>shared = [], world = [10]\<rparr> fetch_add 0 5
     = (\<lparr>m_future = Some 0\<rparr>,
        \<lparr>m_tasks = [task_of \<lparr>stored = fetch_add 0 5, pt_state = Some 0\<rparr>], m_stop = False\<rparr>,
        \<lparr>shared = [Pending], world = [10]\<rparr>)
   \<and> (\<exists>s2. execute (task_of \<lparr>stored = fetch_add 0 5, pt_state = Some 0\<rparr>)
               \<lparr>shared = [Pending], world = [10]\<rparr> = Inr s2
          \<and> get \<lparr>m_future = Some 0\<rparr> s2 = (Yields 10, \<lparr>m_future = None\<rparr>)
          \<and> wait \<lparr>m_future = Some 0\<rparr> s2 = (Yields 10, \<lparr>m_future = None\<rparr>))"
proof -
  let ?s0 = "\<lparr>shared = [], world = []\<rparr> :: (nat list, string, nat) sys"
  let ?s1 = "\<lparr>shared = [Pending], world = []\<rparr> :: (nat list, string, nat) sys"
  let ?e = "\<lparr>m_future = Some 0\<rparr>"
  let ?qF = "\<lparr>m_tasks = [task_of \<lparr>stored = square 7, pt_state = Some 0\<rparr>], m_stop = False\<rparr>"
  let ?m0 = "\<lparr>shared = [], world = [10]\<rparr> :: (nat list, string, nat) sys"
  let ?m1 = "\<lparr>shared = [Pending], world = [10]\<rparr> :: (nat list, string, nat) sys"
  let ?qM = "\<lparr>m_tasks = [task_of \<lparr>stored = fetch_add 0 5, pt_state = Some 0\<rparr>], m_stop = False\<rparr>"
  have cF: "createF queue_init ?s0 square 7 = (?e, ?qF, ?s1)"
    by (simp add: createF_def pt_make_def get_future_def addWork_def queue_init_def task_move_def)
  have pF: "is_pending (m_future ?e) ?s1" by (simp add: is_pending_def lookup_def)
  have rF: "square 7 (world ?s1) = (Inr 49, [])" by (simp add: square_def)
  have cM: "createM queue_init ?m0 fetch_add 0 5 = (?e, ?qM, ?m1)"
    by (simp add: createM_def pt_make_def get_future_def addWork_def queue_init_def task_move_def)
  have pM: "is_pending (m_future ?e) ?m1" by (simp add: is_pending_def lookup_def)
  have rM: "fetch_add 0 5 (world ?m1) = (Inr 10, [15])" by (simp add: fetch_add_def)
  have F: "\<exists>s2. execute (last (m_tasks ?qF)) ?s1 = Inr s2
          \<and> get ?e (later [] s2) = (Yields 49, ?e\<lparr>m_future := None\<rparr>)
          \<and> wait ?e (later [] s2) = (Yields 49, ?e\<lparr>m_future := None\<rparr>)"
    by (rule result_delivery [THEN conjunct1, THEN mp, OF conjI [OF cF conjI [OF pF rF]]])
  have M: "\<exists>s2. execute (last (m_tasks ?qM)) ?m1 = Inr s2
          \<and> get ?e (later [] s2) = (Yields 10, ?e\<lparr>m_future := None\<rparr>)
          \<and> wait ?e (later [] s2) = (Yields 10, ?e\<lparr>m_future := None\<rparr>)"
    by (rule result_delivery [THEN conjunct2, THEN mp, OF conjI [OF cM conjI [OF pM rM]]])
  from F have F': "\<exists>s2. execute (task_of \<lparr>stored = square 7, pt_state = Some 0\<rparr>) ?s1 = Inr s2
          \<and> get ?e s2 = (Yields 49, \<lparr>m_future = None\<rparr>)
          \<and> wait ?e s2 = (Yields 49, \<lparr>m_future = None\<rparr>)" by simp
  from M have M': "\<exists>s2. execute (task_of \<lparr>stored = fetch_add 0 5, pt_state = Some 0\<rparr>) ?m1 = Inr s2
          \<and> get ?e s2 = (Yields 10, \<lparr>m_future = None\<rparr>)
          \<and> wait ?e s2 = (Yields 10, \<lparr>m_future = None\<rparr>)" by simp
  show ?thesis by (intro conjI cF F' cM M')
qed

text \<open>Claim C2: most recent first. On a queue that is not stopped, \<^verbatim>\<open>getWork\<close> right after
  \<^verbatim>\<open>addWork(t)\<close> returns \<open>t\<close> and leaves the queue as it was before; on a non-empty queue
  it removes and returns the last task appended. A worker alone on a queue that was empty
  and received \<open>t1\<close>, \<open>t2\<close>, \<open>t3\<close> in this order (three distinct unexecuted tasks)
  executes them in the order \<open>t3\<close>, \<open>t2\<close>, \<open>t1\<close>.\<close>

theorem getWork_most_recent_first:
  assumes "\<not> m_stop q"
  shows "getWork (addWork t q) = Some (t, q)
    \<and> (m_tasks q \<noteq> [] \<longrightarrow>
         getWork q = Some (last (m_tasks q), q\<lparr>m_tasks := butlast (m_tasks q)\<rparr>))
    \<and> (m_tasks q = [] \<and> runnable s [t1, t2, t3] \<longrightarrow>
         executed (worker (addWork t3 (addWork t2 (addWork t1 q))) s) = [t3, t2, t1])"
proof -
  have "executed (worker (addWork t3 (addWork t2 (addWork t1 q))) s) = [t3, t2, t1]"
    if "m_tasks q = []" "runnable s [t1, t2, t3]"
  proof -
    let ?q = "addWork t3 (addWork t2 (addWork t1 q))"
    have "\<not> m_stop ?q" "m_tasks ?q = [t1, t2, t3]"
      using assms that(1) by (simp_all add: addWork_def)
    from worker_drains [OF this that(2)] show ?thesis by simp
  qed
  with assms show ?thesis by (simp add: getWork_addWork getWork_running)
qed

text \<open>A concrete run: three logging tasks enqueued on the initial queue; the worker leaves the
  log \<open>[3, 2, 1]\<close>.\<close>

theorem getWork_most_recent_first_witness:
  "\<not> m_stop (queue_init :: (nat list, string, nat) queue)
   \<and> getWork (addWork (job 3 2) (addWork (job 2 1) (addWork (job 1 0) queue_init)))
       = Some (job 3 2, addWork (job 2 1) (addWork (job 1 0) queue_init))
   \<and> m_tasks (addWork (job 2 1) (addWork (job 1 0) queue_init)) \<noteq> []
   \<and> getWork (addWork (job 2 1) (addWork (job 1 0) queue_init))
       = Some (job 2 1, addWork (job 1 0) queue_init)
   \<and> runnable \<lparr>shared = [Pending, Pending, Pending], world = []\<rparr> [job 1 0, job 2 1, job 3 2]
   \<and> executed (worker (addWork (job 3 2) (addWork (job 2 1) (addWork (job 1 0) queue_init)))
         \<lparr>shared = [Pending, Pending, Pending], world = []\<rparr>) = [job 3 2, job 2 1, job 1 0]
   \<and> world (sys_after (worker (addWork (job 3 2) (addWork (job 2 1) (addWork (job 1 0) queue_init)))
         \<lparr>shared = [Pending, Pending, Pending], world = []\<rparr>)) = [3, 2, 1]"
proof -
  let ?q0 = "queue_init :: (nat list, string, nat) queue"
  let ?q1 = "addWork (job 1 0) ?q0"
  let ?q2 = "addWork (job 2 1) ?q1"
  let ?s = "\<lparr>shared = [Pending, Pending, Pending], world = []\<rparr> :: (nat list, string, nat) sys"
  have n0: "\<not> m_stop ?q0" and e0: "m_tasks ?q0 = []" by (simp_all add: queue_init_def)
  have n2: "\<not> m_stop ?q2" by (simp add: queue_init_def addWork_def)
  have r: "runnable ?s [job 1 0, job 2 1, job 3 2]"
    by (simp add: runnable_def owns_unexecuted_def slot_def job_def task_of_def
          is_pending_def lookup_def)
  note A = getWork_most_recent_first [OF n0, of "job 1 0" ?s "job 1 0" "job 2 1" "job 3 2"]
  note B = getWork_most_recent_first [OF n2, of "job 3 2" ?s "job 1 0" "job 2 1" "job 3 2"]
  have e2: "m_tasks ?q2 \<noteq> []" by (simp add: addWork_def)
  have x: "executed (worker (addWork (job 3 2) ?q2) ?s) = [job 3 2, job 2 1, job 1 0]"
    by (rule A [THEN conjunct2, THEN conjunct2, THEN mp, OF conjI [OF e0 r]])
  have g3: "getWork (addWork (job 3 2) ?q2) = Some (job 3 2, ?q2)"
    by (rule B [THEN conjunct1])
  from B [THEN conjunct2, THEN conjunct1, THEN mp, OF e2]
  have g2: "getWork ?q2 = Some (job 2 1, ?q1)"
    by (simp add: addWork_def queue_init_def)
  have w: "world (sys_after (worker (addWork (job 3 2) ?q2) ?s)) = [3, 2, 1]"
    by (simp add: worker.simps getWork_def addWork_def queue_init_def job_def task_of_def valid_def
      execute_def holder_execute_def invoke_def lookup_def logged_def result_state_def
      task_destroy_def pt_destroy_def task_move_def)
  show ?thesis by (intro conjI n0 g3 e2 g2 r x w)
qed

text \<open>Claim C3: after shutdown. Once \<^verbatim>\<open>m_stop\<close> is set, \<^verbatim>\<open>getWork\<close> returns an empty handle
  (\<^verbatim>\<open>valid()\<close> is false) and leaves the queue untouched, whatever it holds; \<^verbatim>\<open>addWork\<close>
  still appends; and along any further sequence of operations every \<^verbatim>\<open>getWork\<close> hands out
  the empty handle while the queue keeps all its tasks and gains the ones added, so that
  no task enqueued before or after the stop is ever dequeued.\<close>

theorem getWork_after_shutdown:
  assumes "m_stop q"
  shows "getWork q = Some (task_default, q) \<and> \<not> valid (task_default :: ('w, 'x, 'v) task)
    \<and> addWork t q = q\<lparr>m_tasks := m_tasks q @ [t]\<rparr>
    \<and> perform_all xs q = (map stopped_reply xs, q\<lparr>m_tasks := m_tasks q @ added xs\<rparr>)"
  using assms
  by (simp add: getWork_stopped perform_all_stopped addWork_def valid_def task_default_def)

text \<open>A concrete run: a queue stopped with one task in it, then five more operations.\<close>

theorem getWork_after_shutdown_witness:
  "m_stop (stop (addWork (job 1 0) queue_init))
   \<and> getWork (stop (addWork (job 1 0) queue_init))
       = Some (task_default, stop (addWork (job 1 0) queue_init))
   \<and> perform_all [GetWork, AddWork (job 2 1), GetWork, Stop, GetWork]
        (stop (addWork (job 1 0) queue_init))
       = ([Handed task_default, Done, Handed task_default, Done, Handed task_default],
          \<lparr>m_tasks = [job 1 0, job 2 1], m_stop = True\<rparr>)"
proof -
  let ?q = "stop (addWork (job 1 0) queue_init) :: (nat list, string, nat) queue"
  let ?xs = "[GetWork, AddWork (job 2 1), GetWork, Stop, GetWork] :: (nat list, string, nat) op list"
  have m: "m_stop ?q" by (simp add: stop_def)
  note A = getWork_after_shutdown [OF m, of "job 2 1" ?xs]
  have g: "getWork ?q = Some (task_default, ?q)" by (rule A [THEN conjunct1])
  have "perform_all ?xs ?q = (map stopped_reply ?xs, ?q\<lparr>m_tasks := m_tasks ?q @ added ?xs\<rparr>)"
    by (rule A [THEN conjunct2, THEN conjunct2, THEN conjunct2])
  also have "\<dots> = ([Handed task_default, Done, Handed task_default, Done, Handed task_default],
          \<lparr>m_tasks = [job 1 0, job 2 1], m_stop = True\<rparr>)"
    by (simp add: stop_def addWork_def queue_init_def task_move_def)
  finally have p: "perform_all ?xs ?q = ([Handed task_default, Done, Handed task_default, Done, Handed task_default],
          \<lparr>m_tasks = [job 1 0, job 2 1], m_stop = True\<rparr>)" .
  show ?thesis by (intro conjI m g p)
qed

text \<open>Claim C4: abandoned result. For a task and an event that share their result slot,
  while the result is outstanding (\<^verbatim>\<open>execute\<close> has not run) \<^verbatim>\<open>get()\<close> and \<^verbatim>\<open>wait()\<close> keep
  waiting; once the task has been destroyed in that state, then and after any further
  steps \<open>as\<close> of the system, they fail with \<^verbatim>\<open>future_error(broken_promise)\<close> instead of
  waiting forever. This error differs from every exception \<open>x\<close> a callable throws.\<close>

theorem abandoned_result:
  assumes "paired t e" and "is_pending (m_future e) s"
  shows "get e s = (Waits, e) \<and> wait e s = (Waits, e)
    \<and> get e (later as (task_destroy t s))
         = (Rethrows (Future_error broken_promise), e\<lparr>m_future := None\<rparr>)
    \<and> wait e (later as (task_destroy t s))
         = (Rethrows (Future_error broken_promise), e\<lparr>m_future := None\<rparr>)
    \<and> Future_error broken_promise \<noteq> Thrown x"
  using destroy_then_get (3,4) [OF assms] destroy_then_get_later [OF assms] by simp

text \<open>A concrete run: the task of a pair is destroyed unexecuted, another task is submitted
  and executed, then the event is read.\<close>

theorem abandoned_result_witness:
  "paired (task_of \<lparr>stored = square 7, pt_state = Some 0\<rparr>) \<lparr>m_future = Some 0\<rparr>
   \<and> is_pending (m_future \<lparr>m_future = Some 0\<rparr>)
        (\<lparr>shared = [Pending], world = []\<rparr> :: (nat list, string, nat) sys)
   \<and> get \<lparr>m_future = Some 0\<rparr> (\<lparr>shared = [Pending], world = []\<rparr> :: (nat list, string, nat) sys)
       = (Waits, \<lparr>m_future = Some 0\<rparr>)
   \<and> later [Submits (square 2), Runs (task_of \<lparr>stored = square 2, pt_state = Some 1\<rparr>)]
         (task_destroy (task_of \<lparr>stored = square 7, pt_state = Some 0\<rparr>)
            \<lparr>shared = [Pending], world = []\<rparr>)
       = \<lparr>shared = [Has_exception (Future_error broken_promise), Has_value 4], world = []\<rparr>
   \<and> get \<lparr>m_future = Some 0\<rparr>
        (\<lparr>shared = [Has_exception (Future_error broken_promise), Has_value 4], world = []\<rparr>
           :: (nat list, string, nat) sys)
       = (Rethrows (Future_error broken_promise), \<lparr>m_future = None\<rparr>)
   \<and> wait \<lparr>m_future = Some 0\<rparr>
        (\<lparr>shared = [Has_exception (Future_error broken_promise), Has_value 4], world = []\<rparr>
           :: (nat list, string, nat) sys)
       = (Rethrows (Future_error broken_promise), \<lparr>m_future = None\<rparr>)"
proof -
  let ?t = "task_of \<lparr>stored = square 7, pt_state = Some 0\<rparr>"
  let ?u = "task_of \<lparr>stored = square 2, pt_state = Some 1\<rparr>"
  let ?e = "\<lparr>m_future = Some 0\<rparr>"
  let ?s = "\<lparr>shared = [Pending], world = []\<rparr> :: (nat list, string, nat) sys"
  let ?d = "\<lparr>shared = [Has_exception (Future_error broken_promise), Has_value 4], world = []\<rparr>
              :: (nat list, string, nat) sys"
  let ?as = "[Submits (square 2), Runs ?u]"
  have p: "paired ?t ?e" by (simp add: paired_def slot_def task_of_def)
  have i: "is_pending (m_future ?e) ?s" by (simp add: is_pending_def lookup_def)
  have d: "later ?as (task_destroy ?t ?s) = ?d"
    by (simp add: task_destroy_def pt_destroy_def task_of_def lookup_def pt_make_def
          execute_def holder_execute_def invoke_def square_def result_state_def)
  note A = abandoned_result [OF p i, of ?as]
  have b: "get ?e ?s = (Waits, ?e)" by (rule A [THEN conjunct1])
  from A [THEN conjunct2, THEN conjunct2, THEN conjunct1, unfolded d]
  have g: "get ?e ?d = (Rethrows (Future_error broken_promise), \<lparr>m_future = None\<rparr>)"
    by simp
  from A [THEN conjunct2, THEN conjunct2, THEN conjunct2, THEN conjunct1, unfolded d]
  have w: "wait ?e ?d = (Rethrows (Future_error broken_promise), \<lparr>m_future = None\<rparr>)"
    by simp
  show ?thesis by (intro conjI p i b d g w)
qed

text \<open>Claim C5: failure propagation. If the callable of a task submitted with \<^verbatim>\<open>createF\<close>
  or with \<^verbatim>\<open>createM\<close> throws \<open>x\<close> when the task is executed, \<^verbatim>\<open>execute\<close> still returns
  normally; at once or after any further steps \<open>as\<close> of the system, \<^verbatim>\<open>get()\<close> and
  \<^verbatim>\<open>wait()\<close> on the event rethrow that same \<open>x\<close>; and a worker that takes the task off
  the queue goes on with its loop on the remaining queue: the failure neither gets lost
  nor ends the worker.\<close>

theorem failure_propagation:
  "(createF q s f args = (e, q', s') \<and> is_pending (m_future e) s1
      \<and> f args (world s1) = (Inl x, w') \<and> \<not> m_stop q \<longrightarrow>
      (\<exists>s2. execute (last (m_tasks q')) s1 = Inr s2
         \<and> get e (later as s2) = (Rethrows (Thrown x), e\<lparr>m_future := None\<rparr>)
         \<and> wait e (later as s2) = (Rethrows (Thrown x), e\<lparr>m_future := None\<rparr>)
         \<and> worker q' s1
             = (worker q s2)\<lparr>executed := last (m_tasks q') # executed (worker q s2)\<rparr>))
   \<and> (createM q s g c args = (e, q', s') \<and> is_pending (m_future e) s1
      \<and> g c args (world s1) = (Inl x, w') \<and> \<not> m_stop q \<longrightarrow>
      (\<exists>s2. execute (last (m_tasks q')) s1 = Inr s2
         \<and> get e (later as s2) = (Rethrows (Thrown x), e\<lparr>m_future := None\<rparr>)
         \<and> wait e (later as s2) = (Rethrows (Thrown x), e\<lparr>m_future := None\<rparr>)
         \<and> worker q' s1
             = (worker q s2)\<lparr>executed := last (m_tasks q') # executed (worker q s2)\<rparr>))"
proof (intro conjI impI; elim conjE)
  assume c: "createF q s f args = (e, q', s')" and p: "is_pending (m_future e) s1"
    and r: "f args (world s1) = (Inl x, w')" and n: "\<not> m_stop q"
  show "\<exists>s2. execute (last (m_tasks q')) s1 = Inr s2
         \<and> get e (later as s2) = (Rethrows (Thrown x), e\<lparr>m_future := None\<rparr>)
         \<and> wait e (later as s2) = (Rethrows (Thrown x), e\<lparr>m_future := None\<rparr>)
         \<and> worker q' s1
             = (worker q s2)\<lparr>executed := last (m_tasks q') # executed (worker q s2)\<rparr>"
    by (rule failure_of_submitted [OF createF_D [OF c] p r n])
next
  assume c: "createM q s g c args = (e, q', s')" and p: "is_pending (m_future e) s1"
    and r: "g c args (world s1) = (Inl x, w')" and n: "\<not> m_stop q"
  show "\<exists>s2. execute (last (m_tasks q')) s1 = Inr s2
         \<and> get e (later as s2) = (Rethrows (Thrown x), e\<lparr>m_future := None\<rparr>)
         \<and> wait e (later as s2) = (Rethrows (Thrown x), e\<lparr>m_future := None\<rparr>)
         \<and> worker q' s1
             = (worker q s2)\<lparr>executed := last (m_tasks q') # executed (worker q s2)\<rparr>"
    by (rule failure_of_submitted [OF createM_D [OF c] p r n])
qed

text \<open>A concrete run: a callable that throws \<open>''boom''\<close> submitted with \<^verbatim>\<open>createF\<close>, and
  \<open>fetch_add\<close> on a counter that does not exist submitted with \<^verbatim>\<open>createM\<close>, each taken off
  the queue by a worker.\<close>

theorem failure_propagation_witness:
  "createF queue_init \<lparr>shared = [], world = []\<rparr> failing ''boom''
     = (\<lparr>m_future = Some 0\<rparr>,
        \<lparr>m_tasks = [task_of \<lparr>stored = failing ''boom'', pt_state = Some 0\<rparr>], m_stop = False\<rparr>,
        \<lparr>shared = [Pending], world = []\<rparr>)
   \<and> failing ''boom'' [] = (Inl ''boom'', [])
   \<and> (\<exists>s2. execute (task_of \<lparr>stored = failing ''boom'', pt_state = Some 0\<rparr>)
               \<lparr>shared = [Pending], world = []\<rparr> = Inr s2
          \<and> get \<lparr>m_future = Some 0\<rparr> s2 = (Rethrows (Thrown ''boom''), \<lparr>m_future = None\<rparr>)
          \<and> wait \<lparr>m_future = Some 0\<rparr> s2 = (Rethrows (Thrown ''boom''), \<lparr>m_future = None\<rparr>)
          \<and> worker \<lparr>m_tasks = [task_of \<lparr>stored = failing ''boom'', pt_state = Some 0\<rparr>], m_stop = False\<rparr>
               \<lparr>shared = [Pending], world = []\<rparr>
             = (worker queue_init s2)
                 \<lparr>executed := task_of \<lparr>stored = failing ''boom'', pt_state = Some 0\<rparr>
                    # executed (worker queue_init s2)\<rparr>)
   \<and> ending (worker \<lparr>m_tasks = [task_of \<lparr>stored = failing ''boom'', pt_state = Some 0\<rparr>], m_stop = False\<rparr>
               \<lparr>shared = [Pending], world = []\<rparr>) = Suspended
   \<and> createM queue_init \<lparr>shared = [], world = [10]\<rparr> fetch_add 4 5
     = (\<lparr>m_future = Some 0\<rparr>,
        \<lparr>m_tasks = [task_of \<lparr>stored = fetch_add 4 5, pt_state = Some 0\<rparr>], m_stop = False\<rparr>,
        \<lparr>shared = [Pending], world = [10]\<rparr>)
   \<and> fetch_add 4 5 [10] = (Inl ''no such object'', [10])
   \<and> (\<exists>s2. execute (task_of \<lparr>stored = fetch_add 4 5, pt_state = Some 0\<rparr>)
               \<lparr>shared = [Pending], world = [10]\<rparr> = Inr s2
          \<and> get \<lparr>m_future = Some 0\<rparr> s2
               = (Rethrows (Thrown ''no such object''), \<lparr>m_future = None\<rparr>)
          \<and> wait \<lparr>m_future = Some 0\<rparr> s2
               = (Rethrows (Thrown ''no such object''), \<lparr>m_future = None\<rparr>)
          \<and> worker \<lparr>m_tasks = [task_of \<lparr>stored = fetch_add 4 5, pt_state = Some 0\<rparr>], m_stop = False\<rparr>
               \<lparr>shared = [Pending], world = [10]\<rparr>
             = (worker queue_init s2)
                 \<lparr>executed := task_of \<lparr>stored = fetch_add 4 5, pt_state = Some 0\<rparr>
                    # executed (worker queue_init s2)\<rparr>)"
proof -
  let ?s0 = "\<lparr>shared = [], world = []\<rparr> :: (nat list, string, nat) sys"
  let ?s1 = "\<lparr>shared = [Pending], world = []\<rparr> :: (nat list, string, nat) sys"
  let ?m0 = "\<lparr>shared = [], world = [10]\<rparr> :: (nat list, string, nat) sys"
  let ?m1 = "\<lparr>shared = [Pending], world = [10]\<rparr> :: (nat list, string, nat) sys"
  let ?e = "\<lparr>m_future = Some 0\<rparr>"
  let ?t = "task_of \<lparr>stored = failing ''boom'', pt_state = Some 0\<rparr>"
  let ?q = "\<lparr>m_tasks = [?t], m_stop = False\<rparr>"
  let ?tm = "task_of \<lparr>stored = fetch_add 4 5, pt_state = Some 0\<rparr>"
  let ?qm = "\<lparr>m_tasks = [?tm], m_stop = False\<rparr>"
  have c: "createF queue_init ?s0 failing ''boom'' = (?e, ?q, ?s1)"
    by (simp add: createF_def pt_make_def get_future_def addWork_def queue_init_def task_move_def)
  have p: "is_pending (m_future ?e) ?s1" by (simp add: is_pending_def lookup_def)
  have r: "failing ''boom'' (world ?s1) = (Inl ''boom'', [])" by (simp add: failing_def)
  have r': "failing ''boom'' [] = (Inl ''boom'', [])" by (simp add: failing_def)
  have cm: "createM queue_init ?m0 fetch_add 4 5 = (?e, ?qm, ?m1)"
    by (simp add: createM_def pt_make_def get_future_def addWork_def queue_init_def task_move_def)
  have pm: "is_pending (m_future ?e) ?m1" by (simp add: is_pending_def lookup_def)
  have rm: "fetch_add 4 5 (world ?m1) = (Inl ''no such object'', [10])"
    by (simp add: fetch_add_def)
  have rm': "fetch_add 4 5 [10] = (Inl ''no such object'', [10])"
    by (simp add: fetch_add_def)
  have n: "\<not> m_stop (queue_init :: (nat list, string, nat) queue)" by (simp add: queue_init_def)
  have l: "last (m_tasks ?q) = ?t" by simp
  have lm: "last (m_tasks ?qm) = ?tm" by simp
  have u: "?e\<lparr>m_future := None\<rparr> = \<lparr>m_future = None\<rparr>" by simp
  note F = failure_propagation [where f = failing and args = "''boom''" and x = "''boom''"
        and as = "[]" and q = queue_init and s = ?s0 and e = ?e and q' = ?q and s' = ?s1
        and ?s1.0 = ?s1 and w' = "[]", THEN conjunct1, THEN mp,
        OF conjI [OF c conjI [OF p conjI [OF r n]]]]
  note M = failure_propagation [where g = fetch_add and c = 4 and args = 5
        and x = "''no such object''" and as = "[]" and q = queue_init and s = ?m0 and e = ?e
        and q' = ?qm and s' = ?m1 and ?s1.0 = ?m1 and w' = "[10]", THEN conjunct2, THEN mp,
        OF conjI [OF cm conjI [OF pm conjI [OF rm n]]]]
  have x: "\<exists>s2. execute ?t ?s1 = Inr s2
          \<and> get ?e s2 = (Rethrows (Thrown ''boom''), \<lparr>m_future = None\<rparr>)
          \<and> wait ?e s2 = (Rethrows (Thrown ''boom''), \<lparr>m_future = None\<rparr>)
          \<and> worker ?q ?s1 = (worker queue_init s2)\<lparr>executed := ?t # executed (worker queue_init s2)\<rparr>"
    using F unfolding l u later.simps .
  have xm: "\<exists>s2. execute ?tm ?m1 = Inr s2
          \<and> get ?e s2 = (Rethrows (Thrown ''no such object''), \<lparr>m_future = None\<rparr>)
          \<and> wait ?e s2 = (Rethrows (Thrown ''no such object''), \<lparr>m_future = None\<rparr>)
          \<and> worker ?qm ?m1 = (worker queue_init s2)\<lparr>executed := ?tm # executed (worker queue_init s2)\<rparr>"
    using M unfolding lm u later.simps .
  from x obtain s2 where
    w1: "worker ?q ?s1 = (worker queue_init s2)\<lparr>executed := ?t # executed (worker queue_init s2)\<rparr>"
    by blast
  have "getWork (queue_init :: (nat list, string, nat) queue) = None"
    by (simp add: getWork_def queue_init_def)
  then have "worker queue_init s2
      = \<lparr>executed = [], ending = Suspended, queue_after = queue_init, sys_after = s2\<rparr>"
    by (rule worker_suspended)
  with w1 have w: "ending (worker ?q ?s1) = Suspended" by simp
  show ?thesis by (intro conjI c r' x w cm rm' xm)
qed

text \<open>Claim C6, as amended: \<^verbatim>\<open>valid()\<close> tells whether the handle holds a holder. A handle
  that owns an unexecuted callable is valid, a handle built from a packaged task is
  valid, a move hands validity over and leaves its source invalid; but \<^verbatim>\<open>execute()\<close>
  does not release the holder, so that after a successful \<^verbatim>\<open>execute()\<close> the handle is
  still valid although its callable is no longer unexecuted.\<close>

theorem valid_is_holding:
  "(owns_unexecuted s t \<longrightarrow> valid t)
   \<and> (execute t s = Inr s' \<longrightarrow> valid t \<and> \<not> owns_unexecuted s' t)
   \<and> valid (task_of p)
   \<and> valid (fst (task_move t)) = valid t \<and> \<not> valid (snd (task_move t))"
proof -
  have "valid t \<and> \<not> owns_unexecuted s' t" if ex: "execute t s = Inr s'"
  proof -
    from execute_Inr_D [OF ex] obtain i where
      i: "slot t = Some i" "lookup (shared s) i = Some Pending"
      and s': "s' = s\<lparr>shared := (shared s)[i := result_state (fst (stored (held (the (content t))) (world s)))],
           world := snd (stored (held (the (content t))) (world s))\<rparr>"
      by blast
    from i(2) have "i < length (shared s)" by (rule lookup_Some)
    then have "lookup (shared s') i \<noteq> Some Pending" by (simp add: s' lookup_def)
    with i(1) have "\<not> owns_unexecuted s' t" by (simp add: owns_unexecuted_iff)
    moreover from i(1) have "valid t" by (auto simp: valid_def slot_def split: option.splits)
    ultimately show ?thesis by simp
  qed
  moreover have "valid (task_of p)" by (simp add: valid_def task_of_def)
  moreover have "\<not> valid (snd (task_move t))" by (simp add: valid_def task_move_def)
  ultimately show ?thesis using owns_unexecuted_valid [of s t] by simp
qed

text \<open>A concrete run: a logging task before and after its execution, and what a move leaves.\<close>

theorem valid_is_holding_witness:
  "owns_unexecuted \<lparr>shared = [Pending], world = []\<rparr> (job 3 0)
   \<and> execute (job 3 0) \<lparr>shared = [Pending], world = []\<rparr> = Inr \<lparr>shared = [Has_value 3], world = [3]\<rparr>
   \<and> valid (job 3 0)
   \<and> \<not> owns_unexecuted \<lparr>shared = [Has_value 3], world = [3]\<rparr> (job 3 0)
   \<and> \<not> valid (snd (task_move (job 3 0)))"
proof -
  let ?s = "\<lparr>shared = [Pending], world = []\<rparr> :: (nat list, string, nat) sys"
  let ?s' = "\<lparr>shared = [Has_value 3], world = [3]\<rparr> :: (nat list, string, nat) sys"
  note A = valid_is_holding [of ?s "job 3 0" ?s' "\<lparr>stored = logged 3, pt_state = Some 0\<rparr>"]
  have o: "owns_unexecuted ?s (job 3 0)"
    by (simp add: job_def task_of_def owns_unexecuted_def is_pending_def lookup_def)
  have x: "execute (job 3 0) ?s = Inr ?s'"
    by (simp add: job_def task_of_def execute_def holder_execute_def invoke_def lookup_def
      logged_def result_state_def)
  have v: "valid (job 3 0)" by (rule A [THEN conjunct1, THEN mp, OF o])
  have u: "\<not> owns_unexecuted ?s' (job 3 0)"
    by (rule A [THEN conjunct2, THEN conjunct1, THEN mp, OF x, THEN conjunct2])
  have m: "\<not> valid (snd (task_move (job 3 0)))"
    by (rule A [THEN conjunct2, THEN conjunct2, THEN conjunct2, THEN conjunct2])
  show ?thesis by (intro conjI o x v u m)
qed

text \<open>Claim C6 as stated fails: after \<^verbatim>\<open>execute()\<close> has run on a handle, \<^verbatim>\<open>valid()\<close> is
  still true on it, while the handle no longer owns an unexecuted callable.\<close>

theorem valid_after_execute_counterexample:
  "execute (job 3 0) \<lparr>shared = [Pending], world = []\<rparr> = Inr \<lparr>shared = [Has_value 3], world = [3]\<rparr>
   \<and> valid (job 3 0)
   \<and> \<not> owns_unexecuted \<lparr>shared = [Has_value 3], world = [3]\<rparr> (job 3 0)"
  by (simp add: job_def task_of_def valid_def execute_def holder_execute_def invoke_def lookup_def
      logged_def result_state_def owns_unexecuted_def is_pending_def)

text \<open>Claim C7, as amended: \<^verbatim>\<open>execute()\<close> on a valid handle. The call returns normally
  exactly when the handle owns an unexecuted callable, that is, when its packaged task
  has a shared state that is not ready yet; on every other valid handle it throws a
  \<^verbatim>\<open>std::future_error\<close> to its caller. In particular a second call on the same task, at
  once or after any further steps \<open>as\<close> of the system, throws
  \<^verbatim>\<open>promise_already_satisfied\<close>, and a valid handle built from a packaged task without
  shared state throws \<^verbatim>\<open>no_state\<close>, executed before or not. Nothing is stated about the
  call on an empty handle, which \<^verbatim>\<open>task::execute\<close> does not check for.\<close>

theorem execute_on_valid_handle:
  "(valid t \<longrightarrow> ((\<exists>s2. execute t s = Inr s2) \<longleftrightarrow> owns_unexecuted s t))
   \<and> (valid t \<and> \<not> owns_unexecuted s t \<longrightarrow> (\<exists>c. execute t s = Inl (Uncaught c)))
   \<and> (execute t s = Inr s' \<longrightarrow>
        execute t (later as s') = Inl (Uncaught promise_already_satisfied))
   \<and> (valid t \<and> slot t = None \<longrightarrow> execute t s = Inl (Uncaught no_state))"
proof -
  have "execute t (later as s') = Inl (Uncaught promise_already_satisfied)"
    if ex: "execute t s = Inr s'"
  proof -
    from execute_Inr_D [OF ex] obtain i where
      i: "slot t = Some i" "lookup (shared s) i = Some Pending"
      and s': "s' = s\<lparr>shared := (shared s)[i := result_state (fst (stored (held (the (content t))) (world s)))],
           world := snd (stored (held (the (content t))) (world s))\<rparr>"
      by blast
    from i(2) have "i < length (shared s)" by (rule lookup_Some)
    then have "lookup (shared s') i = Some (result_state (fst (stored (held (the (content t))) (world s))))"
      by (simp add: s' lookup_def)
    then have "lookup (shared (later as s')) i
        = Some (result_state (fst (stored (held (the (content t))) (world s))))"
      by (rule settled_later) simp
    with i(1) show ?thesis by (rule execute_ready) simp
  qed
  moreover have "\<exists>c. execute t s = Inl (Uncaught c)" if "valid t" "\<not> owns_unexecuted s t"
  proof -
    from execute_not_pending [OF that(2)] obtain e where e: "execute t s = Inl e" ..
    with execute_valid_fault [OF that(1) e] show ?thesis by auto
  qed
  ultimately show ?thesis using execute_returns_iff [of t s] execute_no_state [of t s] by blast
qed

text \<open>A concrete run: a logging task executed once, and again after a further submission;
  and a handle built from a packaged task without shared state.\<close>

theorem execute_on_valid_handle_witness:
  "valid (job 3 0)
   \<and> owns_unexecuted \<lparr>shared = [Pending], world = []\<rparr> (job 3 0)
   \<and> execute (job 3 0) \<lparr>shared = [Pending], world = []\<rparr> = Inr \<lparr>shared = [Has_value 3], world = [3]\<rparr>
   \<and> (\<exists>s2. execute (job 3 0) \<lparr>shared = [Pending], world = []\<rparr> = Inr s2)
   \<and> later [Submits (square 2)] \<lparr>shared = [Has_value 3], world = [3]\<rparr>
       = \<lparr>shared = [Has_value 3, Pending], world = [3]\<rparr>
   \<and> execute (job 3 0) \<lparr>shared = [Has_value 3, Pending], world = [3]\<rparr>
       = Inl (Uncaught promise_already_satisfied)
   \<and> \<not> owns_unexecuted \<lparr>shared = [Has_value 3], world = [3]\<rparr> (job 3 0)
   \<and> (\<exists>c. execute (job 3 0) \<lparr>shared = [Has_value 3], world = [3]\<rparr> = Inl (Uncaught c))
   \<and> valid (task_of \<lparr>stored = square 3, pt_state = None\<rparr>)
   \<and> slot (task_of \<lparr>stored = square 3, pt_state = None\<rparr>) = None
   \<and> execute (task_of \<lparr>stored = square 3, pt_state = None\<rparr>) \<lparr>shared = [], world = []\<rparr>
       = Inl (Uncaught no_state)"
proof -
  let ?s = "\<lparr>shared = [Pending], world = []\<rparr> :: (nat list, string, nat) sys"
  let ?s' = "\<lparr>shared = [Has_value 3], world = [3]\<rparr> :: (nat list, string, nat) sys"
  let ?z = "\<lparr>shared = [], world = []\<rparr> :: (nat list, string, nat) sys"
  let ?n = "task_of \<lparr>stored = square 3, pt_state = None\<rparr>"
  note B = execute_on_valid_handle [of "job 3 0" ?s ?s' "[Submits (square 2)]"]
  note C = execute_on_valid_handle [of "job 3 0" ?s' ?s "[]"]
  note D = execute_on_valid_handle [of ?n ?z ?s "[]"]
  have v: "valid (job 3 0)" by (simp add: valid_def job_def task_of_def)
  have o: "owns_unexecuted ?s (job 3 0)"
    by (simp add: job_def task_of_def owns_unexecuted_def is_pending_def lookup_def)
  have no: "\<not> owns_unexecuted ?s' (job 3 0)"
    by (simp add: job_def task_of_def owns_unexecuted_def is_pending_def lookup_def)
  have x: "execute (job 3 0) ?s = Inr ?s'"
    by (simp add: job_def task_of_def execute_def holder_execute_def invoke_def lookup_def
      logged_def result_state_def)
  have l: "later [Submits (square 2)] ?s' = \<lparr>shared = [Has_value 3, Pending], world = [3]\<rparr>"
    by (simp add: pt_make_def)
  have vn: "valid ?n" by (simp add: valid_def task_of_def)
  have sn: "slot ?n = None" by (simp add: slot_def task_of_def)
  have c: "\<exists>s2. execute (job 3 0) ?s = Inr s2"
    by (rule B [THEN conjunct1, THEN mp, OF v, THEN iffD2, OF o])
  have b: "execute (job 3 0) \<lparr>shared = [Has_value 3, Pending], world = [3]\<rparr>
      = Inl (Uncaught promise_already_satisfied)"
    by (rule B [THEN conjunct2, THEN conjunct2, THEN conjunct1, THEN mp, OF x, unfolded l])
  have d: "\<exists>c. execute (job 3 0) ?s' = Inl (Uncaught c)"
    by (rule C [THEN conjunct2, THEN conjunct1, THEN mp, OF conjI [OF v no]])
  have e: "execute ?n ?z = Inl (Uncaught no_state)"
    by (rule D [THEN conjunct2, THEN conjunct2, THEN conjunct2, THEN mp, OF conjI [OF vn sn]])
  show ?thesis by (intro conjI v o x c l b no d vn sn e)
qed

text \<open>Claim C7 as stated fails: a handle built from a packaged task without shared state is
  valid and has never been executed (no result has been written, the log is empty), yet
  \<^verbatim>\<open>execute()\<close> on it does not return but throws \<^verbatim>\<open>future_error(no_state)\<close>.\<close>

theorem execute_no_state_counterexample:
  "valid (task_of \<lparr>stored = square 3, pt_state = None\<rparr>)
   \<and> execute (task_of \<lparr>stored = square 3, pt_state = None\<rparr>) \<lparr>shared = [], world = []\<rparr>
       = Inl (Uncaught no_state)"
  by (simp add: valid_def task_of_def execute_def holder_execute_def invoke_def)

text \<open>Claim C8: the shutdown flag is one-way. From the initial queue, after any sequence of
  \<^verbatim>\<open>addWork\<close>, \<^verbatim>\<open>getWork\<close> and \<^verbatim>\<open>stop\<close>, once \<^verbatim>\<open>stop()\<close> has been called the flag stays
  set along any further sequence of operations; and calling \<^verbatim>\<open>stop()\<close> again, any number
  of times, leaves the queue as the first call left it.\<close>

theorem shutdown_flag_one_way:
  "m_stop (snd (perform_all ys (stop (snd (perform_all xs queue_init)))))
   \<and> (stop ^^ n) (stop q) = stop q"
proof -
  have "m_stop (stop (snd (perform_all xs queue_init)))" by (simp add: stop_def)
  then show ?thesis using perform_all_keeps_stop stop_funpow by blast
qed

text \<open>A concrete run: operations before and after a stop, and three more stops.\<close>

theorem shutdown_flag_one_way_witness:
  "m_stop (snd (perform_all [GetWork, AddWork (job 2 1), GetWork, Stop]
      (stop (snd (perform_all [AddWork (job 1 0), GetWork, GetWork] queue_init)))))
   \<and> (stop ^^ 3) (stop (addWork (job 1 0) queue_init))
       = \<lparr>m_tasks = [job 1 0], m_stop = True\<rparr>"
proof -
  note A = shutdown_flag_one_way [of "[GetWork, AddWork (job 2 1), GetWork, Stop]"
    "[AddWork (job 1 0), GetWork, GetWork]" 3 "addWork (job 1 0) queue_init"]
  have "(stop ^^ 3) (stop (addWork (job 1 0) queue_init)) = stop (addWork (job 1 0) queue_init)"
    by (rule A [THEN conjunct2])
  also have "\<dots> = \<lparr>m_tasks = [job 1 0], m_stop = True\<rparr>"
    by (simp add: stop_def addWork_def queue_init_def task_move_def)
  finally have s: "(stop ^^ 3) (stop (addWork (job 1 0) queue_init)) = \<lparr>m_tasks = [job 1 0], m_stop = True\<rparr>" .
  show ?thesis by (intro conjI A [THEN conjunct1] s)
qed

text \<open>Claim C9, as amended: the worker loop. When \<^verbatim>\<open>getWork\<close> returns a valid handle whose
  execution returns, the worker executes it and goes round the loop again; when
  \<^verbatim>\<open>getWork\<close> returns an invalid handle the worker leaves the loop having executed
  nothing more; when the execution of a valid handle throws, the exception escapes
  \<^verbatim>\<open>worker\<close>, which has no handler, and ends it there. Every handle a worker executes is
  valid; a worker leaves its loop by \<^verbatim>\<open>break\<close> only if the queue was stopped or held an
  empty handle; on a stopped queue the worker exits at once, executing no task and
  changing neither the queue nor the results; the worker leaves the loop in its first
  iteration exactly when \<^verbatim>\<open>getWork\<close> returns an invalid handle; what ends a worker
  otherwise is always a \<^verbatim>\<open>std::future_error\<close>, and never happens while the queue holds
  distinct unexecuted tasks.\<close>

theorem worker_loop:
  "(getWork q = Some (t, q') \<and> valid t \<and> execute t s = Inr s' \<longrightarrow>
       worker q s = (worker q' s')\<lparr>executed := t # executed (worker q' s')\<rparr>)
   \<and> (getWork q = Some (t, q') \<and> \<not> valid t \<longrightarrow>
       worker q s = \<lparr>executed = [], ending = Exited, queue_after = q', sys_after = s\<rparr>)
   \<and> (getWork q = Some (t, q') \<and> valid t \<and> execute t s = Inl e \<longrightarrow>
       worker q s = \<lparr>executed = [], ending = Crashed e, queue_after = q', sys_after = s\<rparr>)
   \<and> list_all valid (executed (worker q s))
   \<and> (ending (worker q s) = Exited \<longrightarrow> m_stop q \<or> \<not> list_all valid (m_tasks q))
   \<and> (m_stop q \<longrightarrow>
       worker q s = \<lparr>executed = [], ending = Exited, queue_after = q, sys_after = s\<rparr>)
   \<and> ((executed (worker q s) = [] \<and> ending (worker q s) = Exited)
        \<longleftrightarrow> (\<exists>t q'. getWork q = Some (t, q') \<and> \<not> valid t))
   \<and> (ending (worker q s) = Crashed e \<longrightarrow> (\<exists>c. e = Uncaught c))
   \<and> (runnable s (m_tasks q) \<longrightarrow>
        ending (worker q s) = (if m_stop q then Exited else Suspended))"
  using worker_continue [of q t q' s s'] worker_exit [of q t q' s] worker_crash [of q t q' s e]
    worker_executes_valid [of q s] worker_exit_cause [of q s] worker_stopped [of q s]
    worker_first_exit [of q s] worker_crash_kind [of q s e] worker_runnable_ending [of s q]
  by blast

text \<open>A concrete run: a queue with one task, a queue whose last handle is empty, a stopped
  queue, and a queue with a task that has been executed before.\<close>

theorem worker_loop_witness:
  "getWork (addWork (job 1 0) queue_init) = Some (job 1 0, queue_init)
   \<and> valid (job 1 0)
   \<and> execute (job 1 0) \<lparr>shared = [Pending], world = []\<rparr> = Inr \<lparr>shared = [Has_value 1], world = [1]\<rparr>
   \<and> worker (addWork (job 1 0) queue_init) \<lparr>shared = [Pending], world = []\<rparr>
       = (worker queue_init \<lparr>shared = [Has_value 1], world = [1]\<rparr>)
           \<lparr>executed := job 1 0 # executed (worker queue_init \<lparr>shared = [Has_value 1], world = [1]\<rparr>)\<rparr>
   \<and> getWork (addWork task_default (addWork (job 1 0) queue_init))
       = Some (task_default, addWork (job 1 0) queue_init)
   \<and> \<not> valid (task_default :: (nat list, string, nat) task)
   \<and> worker (addWork task_default (addWork (job 1 0) queue_init)) \<lparr>shared = [Pending], world = []\<rparr>
       = \<lparr>executed = [], ending = Exited, queue_after = addWork (job 1 0) queue_init,
          sys_after = \<lparr>shared = [Pending], world = []\<rparr>\<rparr>
   \<and> \<not> list_all valid (m_tasks (addWork task_default (addWork (job 1 0) queue_init)))
   \<and> m_stop (stop (addWork (job 1 0) queue_init))
   \<and> worker (stop (addWork (job 1 0) queue_init)) \<lparr>shared = [Pending], world = []\<rparr>
       = \<lparr>executed = [], ending = Exited, queue_after = stop (addWork (job 1 0) queue_init),
          sys_after = \<lparr>shared = [Pending], world = []\<rparr>\<rparr>
   \<and> execute (job 1 0) \<lparr>shared = [Has_value 1], world = [1]\<rparr>
       = Inl (Uncaught promise_already_satisfied)
   \<and> worker (addWork (job 1 0) queue_init) \<lparr>shared = [Has_value 1], world = [1]\<rparr>
       = \<lparr>executed = [], ending = Crashed (Uncaught promise_already_satisfied),
          queue_after = queue_init, sys_after = \<lparr>shared = [Has_value 1], world = [1]\<rparr>\<rparr>
   \<and> runnable \<lparr>shared = [Pending], world = []\<rparr> (m_tasks (addWork (job 1 0) queue_init))
   \<and> ending (worker (addWork (job 1 0) queue_init) \<lparr>shared = [Pending], world = []\<rparr>) = Suspended"
proof -
  let ?s = "\<lparr>shared = [Pending], world = []\<rparr> :: (nat list, string, nat) sys"
  let ?s' = "\<lparr>shared = [Has_value 1], world = [1]\<rparr> :: (nat list, string, nat) sys"
  let ?q0 = "queue_init :: (nat list, string, nat) queue"
  let ?q1 = "addWork (job 1 0) ?q0"
  let ?qe = "addWork task_default ?q1"
  let ?qs = "stop ?q1"
  let ?d = "task_default :: (nat list, string, nat) task"
  let ?f = "Uncaught promise_already_satisfied"
  note A = worker_loop [of ?q1 "job 1 0" ?q0 ?s ?s' ?f]
  note B = worker_loop [of ?qe ?d ?q1 ?s ?s' ?f]
  note C = worker_loop [of ?qs ?d ?q1 ?s ?s' ?f]
  note D = worker_loop [of ?q1 "job 1 0" ?q0 ?s' ?s ?f]
  have g1: "getWork ?q1 = Some (job 1 0, ?q0)"
    by (simp add: getWork_def addWork_def queue_init_def task_move_def job_def task_of_def)
  have v: "valid (job 1 0)" by (simp add: valid_def job_def task_of_def)
  have x: "execute (job 1 0) ?s = Inr ?s'"
    by (simp add: job_def task_of_def execute_def holder_execute_def invoke_def lookup_def
      logged_def result_state_def)
  have y: "execute (job 1 0) ?s' = Inl ?f"
    by (simp add: job_def task_of_def execute_def holder_execute_def invoke_def lookup_def)
  have ge: "getWork ?qe = Some (?d, ?q1)"
    by (simp add: getWork_def addWork_def queue_init_def task_move_def task_default_def)
  have nv: "\<not> valid ?d" by (simp add: valid_def task_default_def)
  have ms: "m_stop ?qs" by (simp add: stop_def)
  have nm: "\<not> m_stop ?q1" by (simp add: addWork_def queue_init_def)
  have r: "runnable ?s (m_tasks ?q1)"
    by (simp add: runnable_def owns_unexecuted_def slot_def job_def task_of_def
          is_pending_def lookup_def addWork_def queue_init_def)
  have a: "worker ?q1 ?s = (worker ?q0 ?s')\<lparr>executed := job 1 0 # executed (worker ?q0 ?s')\<rparr>"
    by (rule A [THEN conjunct1, THEN mp, OF conjI [OF g1 conjI [OF v x]]])
  have b: "worker ?qe ?s = \<lparr>executed = [], ending = Exited, queue_after = ?q1, sys_after = ?s\<rparr>"
    by (rule B [THEN conjunct2, THEN conjunct1, THEN mp, OF conjI [OF ge nv]])
  from b have "ending (worker ?qe ?s) = Exited" by simp
  from B [THEN conjunct2, THEN conjunct2, THEN conjunct2, THEN conjunct2, THEN conjunct1,
      THEN mp, OF this]
  have c: "\<not> list_all valid (m_tasks ?qe)" by (simp add: addWork_def queue_init_def)
  have d: "worker ?qs ?s = \<lparr>executed = [], ending = Exited, queue_after = ?qs, sys_after = ?s\<rparr>"
    by (rule C [THEN conjunct2, THEN conjunct2, THEN conjunct2, THEN conjunct2, THEN conjunct2,
          THEN conjunct1, THEN mp, OF ms])
  have k: "worker ?q1 ?s' = \<lparr>executed = [], ending = Crashed ?f, queue_after = ?q0, sys_after = ?s'\<rparr>"
    by (rule D [THEN conjunct2, THEN conjunct2, THEN conjunct1, THEN mp,
          OF conjI [OF g1 conjI [OF v y]]])
  from A [THEN conjunct2, THEN conjunct2, THEN conjunct2, THEN conjunct2, THEN conjunct2,
      THEN conjunct2, THEN conjunct2, THEN conjunct2, THEN mp, OF r] nm
  have u: "ending (worker ?q1 ?s) = Suspended" by simp
  show ?thesis by (intro conjI g1 v x a ge nv b c ms d y k r u)
qed

text \<open>Claim C9 as stated fails: on a queue that is not stopped \<^verbatim>\<open>getWork\<close> returns a valid
  handle, of a task that has been executed before, and the worker ends there, on the
  \<^verbatim>\<open>future_error(promise_already_satisfied)\<close> that escapes from \<^verbatim>\<open>t()\<close>.\<close>

theorem worker_ends_on_valid_handle_counterexample:
  "\<not> m_stop (addWork (job 1 0) queue_init)
   \<and> getWork (addWork (job 1 0) queue_init) = Some (job 1 0, queue_init)
   \<and> valid (job 1 0)
   \<and> worker (addWork (job 1 0) queue_init) \<lparr>shared = [Has_value 1], world = [1]\<rparr>
       = \<lparr>executed = [], ending = Crashed (Uncaught promise_already_satisfied),
          queue_after = queue_init, sys_after = \<lparr>shared = [Has_value 1], world = [1]\<rparr>\<rparr>"
  by (simp add: worker.simps getWork_def addWork_def queue_init_def task_move_def job_def
      task_of_def valid_def execute_def holder_execute_def invoke_def lookup_def)

text \<open>Claim C10: a default-constructed task is empty: \<^verbatim>\<open>valid()\<close> is false on it, and it is
  the same handle as the one a move leaves behind, so \<^verbatim>\<open>execute\<close> ends the same way on
  both.\<close>

theorem default_task_empty:
  "\<not> valid (task_default :: ('w, 'x, 'v) task)
   \<and> snd (task_move (t :: ('w, 'x, 'v) task)) = task_default
   \<and> execute (task_default :: ('w, 'x, 'v) task) s = execute (snd (task_move t)) s"
  by (simp add: valid_def task_default_def task_move_def execute_def)

end
